theory Spec2Isabelle
  imports Complex_Main "HOL-Library.Multiset"
begin

section \<open>The waterfall component: slot classification\<close>

text \<open>
  The embedding follows \<^verbatim>\<open>src/html5/render/vue/components/scrollable/waterfall.js\<close>.

  A slot node (a framework \<^verbatim>\<open>vnode\<close>) is read by \<^verbatim>\<open>_createChildren\<close> through three
  paths only: \<^verbatim>\<open>vnode.tag\<close>, \<^verbatim>\<open>vnode.componentOptions\<close> (and its \<^verbatim>\<open>tag\<close>) and
  \<^verbatim>\<open>vnode.data.attrs\<close>. A field that is \<^verbatim>\<open>undefined\<close> is \<open>None\<close>. A node with
  \<^verbatim>\<open>componentOptions\<close> is a component node, for which the framework always allocates the
  \<^verbatim>\<open>data\<close> object, so only \<^verbatim>\<open>attrs\<close> is optional. The field \<open>key\<close> stands for the
  remaining content of the node and tells two nodes of equal shape apart.
\<close>

record compOptions =
  ctag :: "string option"

record vnode =
  key :: nat
  tag :: "string option"
  componentOptions :: "compOptions option"
  attrs :: "(string \<times> string) list option"

text \<open>The groups the component keeps on \<^verbatim>\<open>this\<close> between and during calls.\<close>

record wstate =
  this_refresh :: "vnode option"
  this_loading :: "vnode option"
  this_headers :: "vnode list"
  this_others :: "vnode list"
  this_footers :: "vnode list"

text \<open>
  What \<^verbatim>\<open>createElement\<close> builds: a slot node passed through, or one of the three
  \<^verbatim>\<open>html:div\<close> containers. The style objects are not modelled.
\<close>

datatype divKind = Inner | WaterfallList | CellWrapper

datatype rnode = Slot vnode | Div divKind "rnode list"

text \<open>\<^verbatim>\<open>!s\<close> for a value that is a string or \<^verbatim>\<open>undefined\<close>.\<close>

definition falsyStr :: "string option \<Rightarrow> bool" where
  "falsyStr s = (s = None \<or> s = Some [])"

text \<open>
  The callback of \<^verbatim>\<open>slots.filter\<close> (lines 81 to 102): it returns whether the node is kept
  as a cell, and files every other component node on \<^verbatim>\<open>this\<close> as a side effect.
\<close>

definition cellFilter :: "wstate \<Rightarrow> vnode \<Rightarrow> wstate \<times> bool" where
  "cellFilter st v =
     (if falsyStr (tag v) \<or> componentOptions v = None then (st, False)
      else
        let t = ctag (the (componentOptions v)) in
        if t = Some ''refresh'' then (st\<lparr>this_refresh := Some v\<rparr>, False)
        else if t = Some ''loading'' then (st\<lparr>this_loading := Some v\<rparr>, False)
        else if t = Some ''header'' then
          (if attrs v \<noteq> None \<and> map_of (the (attrs v)) ''data-type'' = Some ''footer''
           then (st\<lparr>this_footers := this_footers st @ [v]\<rparr>, False)
           else (st\<lparr>this_headers := this_headers st @ [v]\<rparr>, False))
        else if t \<noteq> Some ''cell'' then (st\<lparr>this_others := this_others st @ [v]\<rparr>, False)
        else (st, True))"

text \<open>\<^verbatim>\<open>Array.prototype.filter\<close> with that callback: the slots in index order.\<close>

fun filterSlots :: "wstate \<Rightarrow> vnode list \<Rightarrow> wstate \<times> vnode list" where
  "filterSlots st [] = (st, [])"
| "filterSlots st (v # vs) =
     (case cellFilter st v of
        (st1, keep) \<Rightarrow>
          (case filterSlots st1 vs of
             (st2, rest) \<Rightarrow> (st2, if keep then v # rest else rest)))"

text \<open>\<^verbatim>\<open>_genList\<close>: one wrapper per cell, in order.\<close>

definition genList :: "vnode list \<Rightarrow> rnode list" where
  "genList cells = map (\<lambda>c. Div CellWrapper [Slot c]) cells"

text \<open>\<^verbatim>\<open>x && children.push(x)\<close> for a node that may be \<^verbatim>\<open>undefined\<close>.\<close>

definition pushIf :: "vnode option \<Rightarrow> rnode list" where
  "pushIf x = (case x of None \<Rightarrow> [] | Some v \<Rightarrow> [Slot v])"

text \<open>
  \<^verbatim>\<open>_createChildren\<close> (lines 76 to 124). The three lists are reset, the references to the
  refresh and loading nodes are not: they survive from the previous call.
\<close>

definition createChildren :: "wstate \<Rightarrow> vnode list \<Rightarrow> wstate \<times> rnode list" where
  "createChildren st slots =
     (case filterSlots (st\<lparr>this_headers := [], this_others := [], this_footers := []\<rparr>) slots of
        (st1, cells) \<Rightarrow>
          (st1,
           [Div Inner
             (pushIf (this_refresh st1)
              @ map Slot (this_headers st1)
              @ map Slot (this_others st1)
              @ [Div WaterfallList (genList cells)]
              @ map Slot (this_footers st1)
              @ pushIf (this_loading st1))]))"

text \<open>The state of a component that has not rendered yet.\<close>

definition initState :: wstate where
  "initState = \<lparr>this_refresh = None, this_loading = None,
                this_headers = [], this_others = [], this_footers = []\<rparr>"

text \<open>The slot nodes that occur in a rendered tree, in document order.\<close>

fun slotsOf :: "rnode \<Rightarrow> vnode list" where
  "slotsOf (Slot v) = [v]"
| "slotsOf (Div k cs) = concat (map slotsOf cs)"

subsection \<open>The classification as the specification words it\<close>

datatype slotKind = Excluded | Refresh | Loading | Header | Footer | Other | Cell

definition kindOf :: "vnode \<Rightarrow> slotKind" where
  "kindOf v =
     (case componentOptions v of
        None \<Rightarrow> Excluded
      | Some co \<Rightarrow>
          if falsyStr (tag v) then Excluded
          else if ctag co = Some ''refresh'' then Refresh
          else if ctag co = Some ''loading'' then Loading
          else if ctag co = Some ''header'' then
            (case attrs v of
               None \<Rightarrow> Header
             | Some al \<Rightarrow> if map_of al ''data-type'' = Some ''footer'' then Footer else Header)
          else if ctag co = Some ''cell'' then Cell
          else Other)"

definition ofKind :: "slotKind \<Rightarrow> vnode list \<Rightarrow> vnode list" where
  "ofKind k slots = filter (\<lambda>v. kindOf v = k) slots"

text \<open>The node a repeated assignment leaves in a reference: the last one, or the old value.\<close>

definition lastOr :: "vnode option \<Rightarrow> vnode list \<Rightarrow> vnode option" where
  "lastOr old vs = (if vs = [] then old else Some (last vs))"

text \<open>
  The references kept from earlier calls hold nodes that were filed as refresh and loading
  nodes.
\<close>

definition stateOk :: "wstate \<Rightarrow> bool" where
  "stateOk st =
     ((case this_refresh st of None \<Rightarrow> True | Some v \<Rightarrow> kindOf v = Refresh) \<and>
      (case this_loading st of None \<Rightarrow> True | Some v \<Rightarrow> kindOf v = Loading))"

section \<open>Strings and numbers of the host\<close>

subsection \<open>Strings\<close>

text \<open>
  A string of the host is its sequence of UTF-16 code units, each a natural number;
  \<open>js\<close> writes an ASCII literal as such a sequence.
\<close>

type_synonym jsString = "nat list"

definition js :: "string \<Rightarrow> jsString" where
  "js s = map of_char s"

text \<open>
  The code units that \<^verbatim>\<open>parseInt\<close> and \<^verbatim>\<open>ToNumber\<close> skip: white space (TAB, VT, FF, the
  byte order mark U+FEFF and the space separators U+0020, U+00A0, U+1680, U+2000 to U+200A,
  U+202F, U+205F, U+3000) and the line terminators LF, CR, U+2028, U+2029.
\<close>

definition isSpace :: "nat \<Rightarrow> bool" where
  "isSpace c =
     (c \<in> set [9, 10, 11, 12, 13, 32, 160, 5760, 8192, 8193, 8194, 8195, 8196, 8197, 8198,
                8199, 8200, 8201, 8202, 8232, 8233, 8239, 8287, 12288, 65279])"

text \<open>The value of a code unit as a digit of the radix, if it is one.\<close>

definition digitVal :: "nat \<Rightarrow> nat \<Rightarrow> nat option" where
  "digitVal radix c =
     (let v = (if 48 \<le> c \<and> c \<le> 57 then Some (c - 48)
               else if 97 \<le> c \<and> c \<le> 122 then Some (c - 87)
               else if 65 \<le> c \<and> c \<le> 90 then Some (c - 55)
               else None)
      in case v of None \<Rightarrow> None | Some d \<Rightarrow> if d < radix then Some d else None)"

definition isDigitOf :: "nat \<Rightarrow> nat \<Rightarrow> bool" where
  "isDigitOf radix c = (digitVal radix c \<noteq> None)"

text \<open>The integer that a sequence of digits of the radix denotes.\<close>

definition digitsVal :: "nat \<Rightarrow> jsString \<Rightarrow> nat" where
  "digitsVal radix ds = foldl (\<lambda>acc c. acc * radix + the (digitVal radix c)) 0 ds"

text \<open>The decimal numeral of a natural number and of an integer.\<close>

function showNat :: "nat \<Rightarrow> jsString" where
  "showNat n = (if n < 10 then [48 + n] else showNat (n div 10) @ [48 + n mod 10])"
  by pat_completeness auto
termination
  by (relation "measure id") auto

declare showNat.simps [simp del]

definition showInt :: "int \<Rightarrow> jsString" where
  "showInt n = (if n < 0 then 45 # showNat (nat (- n)) else showNat (nat n))"

subsection \<open>Numbers\<close>

text \<open>
  A Number of the host: \<^verbatim>\<open>NaN\<close>, an infinity (\<open>True\<close> for the negative one) or a finite
  binary64 value, which is a real number. The sign of zero is not modelled: nothing here
  reads it (\<^verbatim>\<open>-0 > 0\<close> and \<^verbatim>\<open>0 > 0\<close> are both false, \<^verbatim>\<open>!val\<close> holds for both, \<^verbatim>\<open>~~\<close>
  gives \<open>0\<close> for both, and \<^verbatim>\<open>indexOf\<close> finds either for the other).
\<close>

datatype number = NaN | Infinite bool | Finite real

text \<open>The nearest integer, the even one of two that are equally near.\<close>

definition roundEven :: "real \<Rightarrow> int" where
  "roundEven y =
     (let f = \<lfloor>y\<rfloor>; d = y - of_int f
      in if d < 1 / 2 then f else if 1 / 2 < d then f + 1 else if even f then f else f + 1)"

text \<open>
  The distance between neighbouring binary64 values at the magnitude of \<open>x\<close>: with
  \<open>2\<^sup>e \<le> \<bar>x\<bar> < 2\<^sup>e\<^sup>+\<^sup>1\<close> it is \<open>2\<^sup>e\<^sup>-\<^sup>5\<^sup>2\<close>, and \<open>2\<^sup>-\<^sup>1\<^sup>0\<^sup>7\<^sup>4\<close> below the normal range.
\<close>

definition ulp :: "real \<Rightarrow> real" where
  "ulp x = 2 powr (of_int (max \<lfloor>log 2 \<bar>x\<bar>\<rfloor> (- 1022)) - 52)"

text \<open>
  The Number for a real number, which is also the result of every arithmetic operation on
  finite Numbers: rounding to the nearest binary64 value, ties to the even mantissa, and
  to an infinity from \<open>2\<^sup>1\<^sup>0\<^sup>2\<^sup>4\<close> on.
\<close>

definition round64 :: "real \<Rightarrow> number" where
  "round64 x =
     (if x = 0 then Finite 0
      else let r = of_int (roundEven (x / ulp x)) * ulp x
           in if 2 ^ 1024 \<le> \<bar>r\<bar> then Infinite (x < 0) else Finite r)"

text \<open>Unary minus.\<close>

fun negate :: "number \<Rightarrow> number" where
  "negate NaN = NaN"
| "negate (Infinite neg) = Infinite (\<not> neg)"
| "negate (Finite r) = Finite (- r)"

text \<open>
  The operators \<^verbatim>\<open>-=\<close> and \<^verbatim>\<open>+=\<close> on a Number and a finite measurement: the exact result
  rounded.
\<close>

fun fsub :: "number \<Rightarrow> real \<Rightarrow> number" where
  "fsub NaN h = NaN"
| "fsub (Infinite neg) h = Infinite neg"
| "fsub (Finite a) h = round64 (a - h)"

fun fadd :: "number \<Rightarrow> real \<Rightarrow> number" where
  "fadd NaN h = NaN"
| "fadd (Infinite neg) h = Infinite neg"
| "fadd (Finite a) h = round64 (a + h)"

text \<open>The comparison \<^verbatim>\<open><\<close> of two Numbers: false when one of them is \<^verbatim>\<open>NaN\<close>.\<close>

fun numLess :: "number \<Rightarrow> number \<Rightarrow> bool" where
  "numLess (Finite a) (Finite b) = (a < b)"
| "numLess (Finite a) (Infinite neg) = (\<not> neg)"
| "numLess (Infinite neg) (Finite b) = neg"
| "numLess (Infinite neg) (Infinite neg') = (neg \<and> \<not> neg')"
| "numLess NaN b = False"
| "numLess a NaN = False"

text \<open>
  \<^verbatim>\<open>Math.min(...xs)\<close>: \<^verbatim>\<open>NaN\<close> if an argument is, else the least one, and \<^verbatim>\<open>Infinity\<close> for
  no argument.
\<close>

definition numMin :: "number \<Rightarrow> number \<Rightarrow> number" where
  "numMin x acc = (if x = NaN \<or> acc = NaN then NaN else if numLess x acc then x else acc)"

definition mathMin :: "number list \<Rightarrow> number" where
  "mathMin xs = fold numMin xs (Infinite False)"

text \<open>
  \<^verbatim>\<open>xs.indexOf(v)\<close>: the first index that holds a Number strictly equal to \<open>v\<close>, which
  \<^verbatim>\<open>NaN\<close> never is; \<open>None\<close> is \<open>-1\<close>.
\<close>

fun indexOf :: "number list \<Rightarrow> number \<Rightarrow> nat option" where
  "indexOf [] v = None"
| "indexOf (x # xs) v =
     (if x = v \<and> v \<noteq> NaN then Some 0 else map_option Suc (indexOf xs v))"

text \<open>
  \<^verbatim>\<open>ToInt32\<close>, which is what \<^verbatim>\<open>~~\<close> leaves: \<^verbatim>\<open>NaN\<close> and the infinities give \<open>0\<close>; a finite
  value is truncated towards zero and reduced modulo \<open>2\<^sup>3\<^sup>2\<close> into the signed range.
\<close>

definition toInt32 :: "number \<Rightarrow> int" where
  "toInt32 x =
     (case x of
        NaN \<Rightarrow> 0
      | Infinite neg \<Rightarrow> 0
      | Finite r \<Rightarrow>
          let t = (if r < 0 then - \<lfloor>- r\<rfloor> else \<lfloor>r\<rfloor>);
              k = t mod 2 ^ 32
          in if 2 ^ 31 \<le> k then k - 2 ^ 32 else k)"

subsection \<open>From strings to numbers\<close>

text \<open>
  \<^verbatim>\<open>parseInt(string)\<close> with no radix argument: leading white space is dropped, a sign is
  read, a \<^verbatim>\<open>0x\<close> prefix selects radix 16, and the longest prefix of digits is the value,
  rounded to a Number. With no digit the result is \<^verbatim>\<open>NaN\<close>.
\<close>

definition parseInt :: "jsString \<Rightarrow> number" where
  "parseInt inputString =
     (let s = dropWhile isSpace inputString;
          neg = (s \<noteq> [] \<and> hd s = 45);
          s1 = (if s \<noteq> [] \<and> (hd s = 43 \<or> hd s = 45) then tl s else s);
          hex = (take 2 s1 = js ''0x'' \<or> take 2 s1 = js ''0X'');
          radix = (if hex then 16 else 10);
          s2 = (if hex then drop 2 s1 else s1);
          z = takeWhile (isDigitOf radix) s2
      in if z = [] then NaN
         else if neg then negate (round64 (real (digitsVal radix z)))
         else round64 (real (digitsVal radix z)))"

text \<open>The literals with a radix prefix: all of \<open>ds\<close> must be digits of the radix.\<close>

definition radixLiteral :: "nat \<Rightarrow> jsString \<Rightarrow> number" where
  "radixLiteral radix ds =
     (if ds \<noteq> [] \<and> list_all (isDigitOf radix) ds
      then round64 (real (digitsVal radix ds)) else NaN)"

text \<open>The exponent part after \<^verbatim>\<open>e\<close> or \<^verbatim>\<open>E\<close>: an optional sign and decimal digits.\<close>

definition exponentPart :: "jsString \<Rightarrow> int option" where
  "exponentPart s =
     (let neg = (s \<noteq> [] \<and> hd s = 45);
          ds = (if s \<noteq> [] \<and> (hd s = 43 \<or> hd s = 45) then tl s else s)
      in if ds \<noteq> [] \<and> list_all (isDigitOf 10) ds
         then Some ((if neg then - 1 else 1) * int (digitsVal 10 ds)) else None)"

text \<open>The real number \<open>m \<times> 10\<^sup>e\<close>.\<close>

definition scale10 :: "nat \<Rightarrow> int \<Rightarrow> real" where
  "scale10 m e = (if 0 \<le> e then real m * 10 ^ nat e else real m / 10 ^ nat (- e))"

text \<open>
  An unsigned decimal literal: digits, an optional point and fraction digits (one of the
  two digit groups must be there), an optional exponent part, and nothing after it. Its
  value is rounded to a Number. (For a literal of more than 20 significant digits the
  language lets a host round from the first 20; here every host rounds the exact value.)
\<close>

definition unsignedDecimal :: "jsString \<Rightarrow> number" where
  "unsignedDecimal s =
     (let ip = takeWhile (isDigitOf 10) s;
          r1 = dropWhile (isDigitOf 10) s;
          point = (r1 \<noteq> [] \<and> hd r1 = 46);
          fp = (if point then takeWhile (isDigitOf 10) (tl r1) else []);
          r2 = (if point then dropWhile (isDigitOf 10) (tl r1) else r1);
          m = digitsVal 10 (ip @ fp)
      in if ip = [] \<and> fp = [] then NaN
         else if r2 = [] then round64 (scale10 m (- int (length fp)))
         else if hd r2 = 101 \<or> hd r2 = 69 then
           (case exponentPart (tl r2) of
              None \<Rightarrow> NaN
            | Some e \<Rightarrow> round64 (scale10 m (e - int (length fp))))
         else NaN)"

text \<open>
  \<^verbatim>\<open>ToNumber\<close> of a string: white space around the literal is dropped, the empty string
  is \<open>0\<close>, and a string that is no numeric literal is \<^verbatim>\<open>NaN\<close>.
\<close>

definition stringToNumber :: "jsString \<Rightarrow> number" where
  "stringToNumber str =
     (let s = rev (dropWhile isSpace (rev (dropWhile isSpace str)));
          p = take 2 s
      in if s = [] then Finite 0
         else if p = js ''0x'' \<or> p = js ''0X'' then radixLiteral 16 (drop 2 s)
         else if p = js ''0o'' \<or> p = js ''0O'' then radixLiteral 8 (drop 2 s)
         else if p = js ''0b'' \<or> p = js ''0B'' then radixLiteral 2 (drop 2 s)
         else
           let neg = (hd s = 45);
               u = (if hd s = 43 \<or> hd s = 45 then tl s else s);
               v = (if u = js ''Infinity'' then Infinite False else unsignedDecimal u)
           in if neg then negate v else v)"

text \<open>
  \<^verbatim>\<open>ToNumber\<close> of a value that is a string or \<^verbatim>\<open>null\<close>, as \<^verbatim>\<open>getAttribute\<close> returns
  it: \<^verbatim>\<open>null\<close> is \<open>0\<close>.
\<close>

definition toNumber :: "jsString option \<Rightarrow> number" where
  "toNumber a = (case a of None \<Rightarrow> Finite 0 | Some s \<Rightarrow> stringToNumber s)"

section \<open>The \<^verbatim>\<open>columnGap\<close> property\<close>

text \<open>
  The values a property declared with \<^verbatim>\<open>type: [String, Number]\<close> can hold when its
  validator runs: a string, a Number, or nothing.
\<close>

datatype propVal = Undefined | Null | Str jsString | Num number

text \<open>\<^verbatim>\<open>!val\<close>: the empty string, \<^verbatim>\<open>NaN\<close> and zero are falsy, as the absent values are.\<close>

fun falsy :: "propVal \<Rightarrow> bool" where
  "falsy Undefined = True"
| "falsy Null = True"
| "falsy (Str s) = (s = [])"
| "falsy (Num NaN) = True"
| "falsy (Num (Infinite neg)) = False"
| "falsy (Num (Finite r)) = (r = 0)"

text \<open>
  \<^verbatim>\<open>ToString\<close>, which \<^verbatim>\<open>parseInt\<close> applies to its argument. For a Number that is an
  integer below \<open>2\<^sup>5\<^sup>3\<close> in magnitude the string is its decimal numeral. For the other
  finite Numbers the string holds the shortest digits that read back as the same Number,
  whose last digit the language leaves to the host: \<open>printNumber\<close> is the host's function
  for them, a parameter.
\<close>

fun toString :: "(real \<Rightarrow> jsString) \<Rightarrow> propVal \<Rightarrow> jsString" where
  "toString printNumber Undefined = js ''undefined''"
| "toString printNumber Null = js ''null''"
| "toString printNumber (Str s) = s"
| "toString printNumber (Num NaN) = js ''NaN''"
| "toString printNumber (Num (Infinite neg)) =
     (if neg then js ''-Infinity'' else js ''Infinity'')"
| "toString printNumber (Num (Finite r)) =
     (if r = of_int \<lfloor>r\<rfloor> \<and> \<bar>r\<bar> < 2 ^ 53 then showInt \<lfloor>r\<rfloor> else printNumber r)"

text \<open>\<^verbatim>\<open>!isNaN(val) && val > 0\<close> for a Number.\<close>

fun positive :: "number \<Rightarrow> bool" where
  "positive NaN = False"
| "positive (Infinite neg) = (\<not> neg)"
| "positive (Finite r) = (0 < r)"

text \<open>The validator, lines 39 to 45.\<close>

definition columnGap_validator :: "(real \<Rightarrow> jsString) \<Rightarrow> propVal \<Rightarrow> bool" where
  "columnGap_validator printNumber val =
     (if falsy val \<or> val = Str (js ''normal'') then True
      else positive (parseInt (toString printNumber val)))"

text \<open>
  The accepted values as the specification words them: \<^verbatim>\<open>normal\<close>, an empty or absent
  value, and a string or number that parses to a strictly positive integer.
\<close>

definition specAccepts :: "(real \<Rightarrow> jsString) \<Rightarrow> propVal \<Rightarrow> bool" where
  "specAccepts printNumber val =
     (val = Str (js ''normal'') \<or> val = Str [] \<or> val = Undefined \<or> val = Null
      \<or> positive (parseInt (toString printNumber val)))"

section \<open>The reflow pass\<close>

subsection \<open>The column elements\<close>

text \<open>
  \<^verbatim>\<open>_reLayoutChildren\<close> reads the child elements of each column container. Of an element
  it reads whether the selector \<^verbatim>\<open>section.weex-cell\<close> matches it, its \<^verbatim>\<open>data-cell\<close>
  attribute (\<open>None\<close> when \<^verbatim>\<open>getAttribute\<close> returns \<^verbatim>\<open>null\<close>) and three numbers of its
  bounding rectangle. All rectangles are read before the first element is moved, so they
  are fields of the element. \<open>node\<close> is the identity of the element: moving an element
  takes this very node away from where it is. A measurement is a finite Number, so a real
  number; the cells of a column are its children.
\<close>

record elem =
  node :: nat
  isCell :: bool
  dataCell :: "jsString option"
  rect_top :: real
  rect_bottom :: real
  rect_height :: real

text \<open>
  The columns \<^verbatim>\<open>this._columns\<close>, each as the list of its children in document order;
  \<^verbatim>\<open>this._columnCount\<close> is their number.
\<close>

type_synonym columns = "elem list list"

datatype error = TypeError

subsection \<open>The identifier of a cell: \<^verbatim>\<open>~~cellDom.getAttribute('data-cell')\<close>\<close>

text \<open>
  The attribute is read as a string or \<^verbatim>\<open>null\<close>, converted by \<^verbatim>\<open>ToNumber\<close> and then
  by \<^verbatim>\<open>ToInt32\<close>.
\<close>

definition cellId :: "elem \<Rightarrow> int" where
  "cellId c = toInt32 (toNumber (dataCell c))"

subsection \<open>Step 1: the shortest column\<close>

definition MAX_SAFE_INTEGER :: real where
  "MAX_SAFE_INTEGER = 9007199254740991"

text \<open>The bottom of the last child of a column, \<open>0\<close> for a column with no child.\<close>

definition lastBottom :: "elem list \<Rightarrow> real" where
  "lastBottom col = (if col = [] then 0 else rect_bottom (last col))"

text \<open>
  The loop of lines 161 to 172 from column \<open>i\<close> on, on the pair
  \<^verbatim>\<open>(minBottom, minBottomColumnIndex)\<close>.
\<close>

fun findShortest :: "columns \<Rightarrow> nat \<Rightarrow> real \<times> nat \<Rightarrow> real \<times> nat" where
  "findShortest [] i (minBottom, minIndex) = (minBottom, minIndex)"
| "findShortest (col # cols) i (minBottom, minIndex) =
     (if lastBottom col < minBottom
      then findShortest cols (Suc i) (lastBottom col, i)
      else findShortest cols (Suc i) (minBottom, minIndex))"

definition shortest :: "columns \<Rightarrow> real \<times> nat" where
  "shortest cols = findShortest cols 0 (MAX_SAFE_INTEGER, 0)"

subsection \<open>Step 2: the cells below the shortest bottom\<close>

text \<open>
  \<^verbatim>\<open>belowCellIds\<close>, \<^verbatim>\<open>belowCells\<close> (an object keyed by identifier, holding the element and
  its height) and \<^verbatim>\<open>columnBottoms\<close>.
\<close>

record pool =
  belowCellIds :: "int list"
  belowCells :: "int \<rightharpoonup> elem \<times> real"
  columnBottoms :: "number list"

text \<open>
  The inner loop of lines 184 to 193 for column \<open>i\<close>. Its list argument is
  \<^verbatim>\<open>cellsInColumn\<close> in the order of the scan, last cell first.
\<close>

fun scanCells :: "real \<Rightarrow> nat \<Rightarrow> elem list \<Rightarrow> pool \<Rightarrow> pool" where
  "scanCells minBottom i [] p = p"
| "scanCells minBottom i (cellDom # rest) p =
     (if minBottom < rect_top cellDom
      then scanCells minBottom i rest
             \<lparr>belowCellIds = belowCellIds p @ [cellId cellDom],
              belowCells = (belowCells p)(cellId cellDom \<mapsto> (cellDom, rect_height cellDom)),
              columnBottoms =
                (columnBottoms p)[i := fsub (columnBottoms p ! i) (rect_height cellDom)]\<rparr>
      else scanCells minBottom i rest p)"

text \<open>\<^verbatim>\<open>querySelectorAll('section.weex-cell')\<close> on a column.\<close>

definition cellsInColumn :: "elem list \<Rightarrow> elem list" where
  "cellsInColumn col = filter isCell col"

text \<open>The outer loop of lines 177 to 194 from column \<open>i\<close> on.\<close>

fun collectFrom :: "real \<Rightarrow> nat \<Rightarrow> nat \<Rightarrow> columns \<Rightarrow> pool \<Rightarrow> pool" where
  "collectFrom minBottom minIndex i [] p = p"
| "collectFrom minBottom minIndex i (col # cols) p =
     (if i = minIndex then collectFrom minBottom minIndex (Suc i) cols p
      else collectFrom minBottom minIndex (Suc i) cols
             (scanCells minBottom i (rev (cellsInColumn col)) p))"

text \<open>Steps 1 and 2 together: the pool when the third step starts.\<close>

definition collectBelow :: "columns \<Rightarrow> pool" where
  "collectBelow cols =
     (case shortest cols of
        (minBottom, minIndex) \<Rightarrow>
          collectFrom minBottom minIndex 0 cols
            \<lparr>belowCellIds = [], belowCells = Map.empty,
             columnBottoms = map (\<lambda>col. Finite (lastBottom col)) cols\<rparr>)"

subsection \<open>Step 3: the sort and the greedy assignment\<close>

text \<open>
  The comparison function of line 198 returns a boolean; the sort reads its result through
  \<^verbatim>\<open>ToNumber\<close>, as \<open>1\<close> or \<open>0\<close>.
\<close>

definition compareIds :: "int \<Rightarrow> int \<Rightarrow> int" where
  "compareIds a b = (if a > b then 1 else 0)"

text \<open>
  \<^verbatim>\<open>Array.prototype.sort\<close> belongs to the host. The pass takes it as a parameter
  \<open>hostSort\<close>, from a comparison function and an array to the array afterwards. What every
  host guarantees for every comparison function is that the result is a rearrangement.
\<close>

type_synonym hostSort = "(int \<Rightarrow> int \<Rightarrow> int) \<Rightarrow> int list \<Rightarrow> int list"

definition rearranges :: "hostSort \<Rightarrow> bool" where
  "rearranges hostSort = (\<forall>cmp xs. mset (hostSort cmp xs) = mset xs)"

text \<open>
  Two hosts. Both are insertion sorts that insert each element into the sorted part before
  it, walking from its end (the argument of the insertion is that part, last element
  first). The first moves a neighbour up when the comparison function says that the
  neighbour is greater than the element (result above zero), as the insertion sort that V8
  used on short arrays did. The second moves the element down when the comparison function
  says that the element is smaller than the neighbour (result below zero), as the binary
  insertion and the merges of current engines do.
\<close>

fun insertByPos :: "(int \<Rightarrow> int \<Rightarrow> int) \<Rightarrow> int \<Rightarrow> int list \<Rightarrow> int list" where
  "insertByPos cmp element [] = [element]"
| "insertByPos cmp element (tmp # front) =
     (if cmp tmp element > 0 then tmp # insertByPos cmp element front
      else element # tmp # front)"

definition sortByPos :: hostSort where
  "sortByPos cmp xs = rev (foldl (\<lambda>sorted x. insertByPos cmp x sorted) [] xs)"

fun insertByNeg :: "(int \<Rightarrow> int \<Rightarrow> int) \<Rightarrow> int \<Rightarrow> int list \<Rightarrow> int list" where
  "insertByNeg cmp element [] = [element]"
| "insertByNeg cmp element (tmp # front) =
     (if cmp element tmp < 0 then tmp # insertByNeg cmp element front
      else element # tmp # front)"

definition sortByNeg :: hostSort where
  "sortByNeg cmp xs = rev (foldl (\<lambda>sorted x. insertByNeg cmp x sorted) [] xs)"

text \<open>
  The state of the third step: the children of the column containers, the children of the
  document fragments, and the bottom trackers.
\<close>

record layout =
  columnDoms :: columns
  columnAppendFragments :: columns
  bottoms :: "number list"

text \<open>
  What \<^verbatim>\<open>appendChild\<close> does first: the node leaves its parent, whether a column
  container or a fragment.
\<close>

definition detach :: "elem \<Rightarrow> columns \<Rightarrow> columns" where
  "detach x cols = map (filter (\<lambda>e. node e \<noteq> node x)) cols"

text \<open>
  \<^verbatim>\<open>addToShortestColumn\<close> (lines 200 to 207). With no column, \<^verbatim>\<open>Math.min()\<close> is
  \<^verbatim>\<open>Infinity\<close>, \<^verbatim>\<open>indexOf\<close> gives \<open>-1\<close> and the fragment is \<^verbatim>\<open>undefined\<close>: a TypeError.
\<close>

definition addToShortestColumn :: "layout \<Rightarrow> elem \<times> real \<Rightarrow> error + layout" where
  "addToShortestColumn l belowCell =
     (let minBottom = mathMin (bottoms l) in
      case indexOf (bottoms l) minBottom of
        None \<Rightarrow> Inl TypeError
      | Some minBottomColumnIndex \<Rightarrow>
          (case belowCell of
             (cellElm, cellHeight) \<Rightarrow>
               let frags = detach cellElm (columnAppendFragments l) in
               Inr \<lparr>columnDoms = detach cellElm (columnDoms l),
                    columnAppendFragments =
                      frags[minBottomColumnIndex :=
                              frags ! minBottomColumnIndex @ [cellElm]],
                    bottoms =
                      (bottoms l)[minBottomColumnIndex :=
                                    fadd (bottoms l ! minBottomColumnIndex) cellHeight]\<rparr>))"

text \<open>
  The loop of lines 208 to 210 over the sorted identifiers. An identifier with no entry in
  \<^verbatim>\<open>belowCells\<close> makes the destructuring of \<^verbatim>\<open>undefined\<close> throw.
\<close>

fun assignAll :: "(int \<rightharpoonup> elem \<times> real) \<Rightarrow> int list \<Rightarrow> layout \<Rightarrow> error + layout" where
  "assignAll cells [] l = Inr l"
| "assignAll cells (cid # ids) l =
     (case cells cid of
        None \<Rightarrow> Inl TypeError
      | Some belowCell \<Rightarrow>
          (case addToShortestColumn l belowCell of
             Inl e \<Rightarrow> Inl e
           | Inr l' \<Rightarrow> assignAll cells ids l'))"

text \<open>The loop of lines 211 to 213: every fragment is emptied into its column.\<close>

definition appendFragments :: "layout \<Rightarrow> columns" where
  "appendFragments l = map (\<lambda>(dom, frag). dom @ frag) (zip (columnDoms l) (columnAppendFragments l))"

text \<open>The third step from the pool, with the host's sort.\<close>

definition assignPool :: "hostSort \<Rightarrow> columns \<Rightarrow> pool \<Rightarrow> error + layout" where
  "assignPool hostSort cols p =
     assignAll (belowCells p) (hostSort compareIds (belowCellIds p))
       \<lparr>columnDoms = cols,
        columnAppendFragments = replicate (length cols) [],
        bottoms = columnBottoms p\<rparr>"

text \<open>\<^verbatim>\<open>_reLayoutChildren\<close>: the columns after the pass, or the exception it throws.\<close>

definition reLayoutChildren :: "hostSort \<Rightarrow> columns \<Rightarrow> error + columns" where
  "reLayoutChildren hostSort cols =
     (case assignPool hostSort cols (collectBelow cols) of
        Inl e \<Rightarrow> Inl e
      | Inr l \<Rightarrow> Inr (appendFragments l))"

subsection \<open>Notions the results are stated with\<close>

text \<open>A node is in one place: the nodes of the columns are pairwise distinct.\<close>

definition domOk :: "columns \<Rightarrow> bool" where
  "domOk cols = distinct (map node (concat cols))"

text \<open>
  The candidates of a column for a threshold, in the order of the scan: its cells whose top
  is strictly greater, last cell first.
\<close>

definition candidates :: "real \<Rightarrow> elem list \<Rightarrow> elem list" where
  "candidates minBottom col = filter (\<lambda>c. minBottom < rect_top c) (rev (cellsInColumn col))"

text \<open>The candidates of all columns but the shortest, in the order of the scan.\<close>

definition candidatesFrom :: "real \<Rightarrow> nat \<Rightarrow> nat \<Rightarrow> columns \<Rightarrow> elem list" where
  "candidatesFrom minBottom minIndex i cols =
     concat (map (\<lambda>(j, col). if j = minIndex then [] else candidates minBottom col)
                 (zip [i ..< i + length cols] cols))"

definition allCandidates :: "columns \<Rightarrow> elem list" where
  "allCandidates cols =
     (case shortest cols of (minBottom, minIndex) \<Rightarrow> candidatesFrom minBottom minIndex 0 cols)"

text \<open>
  The entry that repeated assignments to one key leave: that of the last element with the
  key, or the old one.
\<close>

definition lastEntry :: "(elem \<times> real) option \<Rightarrow> elem list \<Rightarrow> (elem \<times> real) option" where
  "lastEntry old cs = (if cs = [] then old else Some (last cs, rect_height (last cs)))"

text \<open>
  The columns are balanced when no cell of a column other than the shortest has its top
  strictly below (greater than) the shortest bottom.
\<close>

definition balanced :: "columns \<Rightarrow> bool" where
  "balanced cols =
     (case shortest cols of
        (minBottom, minIndex) \<Rightarrow>
          list_all (\<lambda>(j, col). j = minIndex \<or>
                      list_all (\<lambda>c. \<not> (isCell c \<and> minBottom < rect_top c)) col)
                   (zip [0 ..< length cols] cols))"

subsection \<open>The scenario of the specification\<close>

text \<open>
  Three columns with bottoms \<open>100\<close>, \<open>50\<close> and \<open>80\<close>. Below the shortest bottom, column 0
  holds the cells 5 (top \<open>60\<close>, height \<open>20\<close>) and 6 (top \<open>90\<close>, height \<open>30\<close>), column 2 the
  cell 7 (top \<open>70\<close>, height \<open>10\<close>). The numbers are those of the specification.
\<close>

definition cell :: "nat \<Rightarrow> string \<Rightarrow> real \<Rightarrow> real \<Rightarrow> real \<Rightarrow> elem" where
  "cell n a t b h =
     \<lparr>node = n, isCell = True, dataCell = Some (js a),
      rect_top = t, rect_bottom = b, rect_height = h\<rparr>"

definition scenario :: columns where
  "scenario =
     [[cell 1 ''1'' 0 50 50, cell 5 ''5'' 60 80 20, cell 6 ''6'' 90 100 30],
      [cell 2 ''2'' 0 50 50],
      [cell 3 ''3'' 0 70 70, cell 7 ''7'' 70 80 10]]"

text \<open>
  The tracker of a column after the collection has taken the cells \<open>cs\<close> from it, in this
  order: one \<^verbatim>\<open>-=\<close> per cell.
\<close>

definition trackerAfter :: "real \<Rightarrow> elem list \<Rightarrow> number" where
  "trackerAfter bottom cs = foldl fsub (Finite bottom) (map rect_height cs)"

text \<open>The elements a state of the third step holds, in the containers and the fragments.\<close>

definition placed :: "layout \<Rightarrow> elem list" where
  "placed l = concat (columnDoms l) @ concat (columnAppendFragments l)"

text \<open>The elements that \<^verbatim>\<open>belowCells\<close> retains.\<close>

definition retained :: "pool \<Rightarrow> elem set" where
  "retained p = fst ` ran (belowCells p)"

text \<open>The elements the loop over the identifiers \<open>ids\<close> looks up, in order.\<close>

definition lookedUp :: "(int \<rightharpoonup> elem \<times> real) \<Rightarrow> int list \<Rightarrow> elem list" where
  "lookedUp cells ids =
     concat (map (\<lambda>cid. case cells cid of None \<Rightarrow> [] | Some (x, h) \<Rightarrow> [x]) ids)"

text \<open>Two columns with nothing to move: the only cell of the longer column starts above.\<close>

definition settled :: columns where
  "settled = [[cell 1 ''1'' 0 50 50], [cell 2 ''2'' 0 60 60]]"




section \<open>Strings and numbers of the host: results\<close>

subsection \<open>Rounding\<close>

lemma roundEven_int: "roundEven (of_int z) = z"
  by (simp add: roundEven_def)

lemma floor_log2_bounds:
  assumes "2 ^ e \<le> x" "x < 2 ^ Suc e"
  shows "\<lfloor>log 2 x\<rfloor> = int e"
proof -
  have x: "0 < x" using assms(1) by (smt (verit) zero_less_power)
  have "2 powr (of_int (int e)) \<le> x \<and> x < 2 powr (of_int (int e + 1))"
    using assms by (simp add: powr_realpow powr_add)
  then show ?thesis using floor_log_eq_powr_iff [OF x, of 2 "int e"] by simp
qed

text \<open>The spacing of the binary64 values from \<open>1\<close> up to \<open>2\<^sup>5\<^sup>3\<close>, above, and below \<open>1\<close>.\<close>

lemma ulp_scaled:
  assumes "2 ^ e \<le> \<bar>x\<bar>" "\<bar>x\<bar> < 2 ^ Suc e" "e \<le> 52"
  shows "ulp x = 1 / 2 ^ (52 - e)"
proof -
  have "\<lfloor>log 2 \<bar>x\<bar>\<rfloor> = int e" using assms(1,2) by (rule floor_log2_bounds)
  then have "ulp x = 2 powr (of_int (int e) - 52)" by (simp add: ulp_def)
  also have "\<dots> = 2 powr (- real (52 - e))" using assms(3) by (simp add: of_nat_diff)
  also have "\<dots> = 1 / 2 ^ (52 - e)" by (simp add: powr_minus powr_realpow divide_simps)
  finally show ?thesis .
qed

lemma ulp_large:
  assumes "2 ^ (52 + d) \<le> \<bar>x\<bar>" "\<bar>x\<bar> < 2 ^ Suc (52 + d)"
  shows "ulp x = 2 ^ d"
proof -
  have "\<lfloor>log 2 \<bar>x\<bar>\<rfloor> = int (52 + d)" using assms by (rule floor_log2_bounds)
  then have "ulp x = 2 powr (real d)" by (simp add: ulp_def)
  then show ?thesis by (simp add: powr_realpow)
qed

lemma ulp_small:
  assumes "1 \<le> \<bar>x\<bar> * 2 ^ n" "\<bar>x\<bar> * 2 ^ n < 2" "n \<le> 1022"
  shows "ulp x = 1 / 2 ^ (n + 52)"
proof -
  have x: "0 < \<bar>x\<bar>" using assms(1) by (smt (verit) mult_not_zero)
  have p: "(2::real) powr (- real n) = 1 / 2 ^ n"
    by (simp add: powr_minus powr_realpow divide_simps)
  have "(2::real) powr (1 - real n) = 2 powr 1 * 2 powr (- real n)"
    by (simp only: powr_add [symmetric] diff_conv_add_uminus)
  then have q: "(2::real) powr (1 - real n) = 2 / 2 ^ n" by (simp add: p)
  have a: "2 powr (- real n) \<le> \<bar>x\<bar>"
    unfolding p using assms(1) by (simp add: divide_simps)
  have b: "\<bar>x\<bar> < 2 powr (1 - real n)"
    unfolding q using assms(2) by (simp add: divide_simps)
  have "2 powr (of_int (- int n)) \<le> \<bar>x\<bar> \<and> \<bar>x\<bar> < 2 powr (of_int (- int n + 1))"
    using a b by (simp add: add.commute)
  then have "\<lfloor>log 2 \<bar>x\<bar>\<rfloor> = - int n"
    using floor_log_eq_powr_iff [OF x, of 2 "- int n"] by simp
  then have "ulp x = 2 powr (- real (n + 52))" using assms(3) by (simp add: ulp_def)
  also have "\<dots> = 1 / 2 powr (real (n + 52))" by (simp only: powr_minus_divide)
  also have "\<dots> = 1 / 2 ^ (n + 52)" by (simp only: powr_realpow zero_less_numeral)
  finally show ?thesis .
qed

lemma bit_bracket: "0 < (n::nat) \<Longrightarrow> \<exists>e. 2 ^ e \<le> n \<and> n < 2 ^ Suc e"
proof -
  assume n: "0 < n"
  define e where "e = (LEAST k. n < 2 ^ Suc k)"
  have ex: "n < 2 ^ Suc n" by (metis less_Suc_eq less_exp Suc_lessD)
  have a: "n < 2 ^ Suc e" unfolding e_def using ex by (rule LeastI)
  have b: "2 ^ e \<le> n"
  proof (cases e)
    case 0
    then show ?thesis using n by simp
  next
    case (Suc k)
    have "k < e" using Suc by simp
    then have "\<not> n < 2 ^ Suc k" unfolding e_def by (rule not_less_Least)
    then show ?thesis using Suc by simp
  qed
  show ?thesis using a b by blast
qed

text \<open>An integer below \<open>2\<^sup>5\<^sup>3\<close> in magnitude is a binary64 value: rounding leaves it.\<close>

lemma round64_int:
  assumes "\<bar>n\<bar> < 2 ^ 53"
  shows "round64 (of_int n) = Finite (of_int n)"
proof (cases "n = 0")
  case True
  then show ?thesis by (simp add: round64_def)
next
  case False
  then have "0 < nat \<bar>n\<bar>" by simp
  then obtain e where e: "2 ^ e \<le> nat \<bar>n\<bar>" "nat \<bar>n\<bar> < 2 ^ Suc e"
    using bit_bracket by blast
  have p: "(2::nat) ^ e < 2 ^ 53"
  proof -
    have "int (2 ^ e) \<le> \<bar>n\<bar>" using e(1) by linarith
    then have "int (2 ^ e) < 2 ^ 53" using assms by linarith
    then show ?thesis by (metis of_nat_less_iff of_nat_numeral of_nat_power)
  qed
  have one: "(1::nat) < 2" by simp
  have "e < 53" using one p by (rule power_less_imp_less_exp)
  then have e52: "e \<le> 52" by simp
  let ?x = "of_int n :: real"
  have b1: "2 ^ e \<le> \<bar>?x\<bar>"
  proof -
    have "int (2 ^ e) \<le> \<bar>n\<bar>" using e(1) by linarith
    then have "real_of_int (int (2 ^ e)) \<le> real_of_int \<bar>n\<bar>" by (simp only: of_int_le_iff)
    then show ?thesis by simp
  qed
  have b2: "\<bar>?x\<bar> < 2 ^ Suc e"
  proof -
    have "\<bar>n\<bar> < int (2 ^ Suc e)" using e(2) by linarith
    then have "real_of_int \<bar>n\<bar> < real_of_int (int (2 ^ Suc e))" by (simp only: of_int_less_iff)
    then show ?thesis by simp
  qed
  have u: "ulp ?x = 1 / 2 ^ (52 - e)" using b1 b2 e52 by (rule ulp_scaled)
  have q: "?x / ulp ?x = of_int (n * 2 ^ (52 - e))" by (simp add: u)
  have r: "of_int (roundEven (?x / ulp ?x)) * ulp ?x = ?x"
    unfolding q roundEven_int by (simp add: u)
  have "\<bar>?x\<bar> < 2 ^ 53"
  proof -
    have "real_of_int \<bar>n\<bar> < real_of_int (2 ^ 53)" using assms by (simp only: of_int_less_iff)
    then show ?thesis by simp
  qed
  also have "\<dots> \<le> (2::real) ^ 1024" by (rule power_increasing) simp_all
  finally have "\<not> 2 ^ 1024 \<le> \<bar>?x\<bar>" by simp
  then show ?thesis using False by (simp add: round64_def Let_def r)
qed

lemma round64_nat: "n < 2 ^ 53 \<Longrightarrow> round64 (real n) = Finite (real n)"
  using round64_int [of "int n"] by simp

lemma round64_numeral:
  "(numeral w :: int) < 2 ^ 53 \<Longrightarrow> round64 (numeral w) = Finite (numeral w)"
  using round64_int [of "numeral w"] by simp

lemma round64_neg_numeral:
  "(numeral w :: int) < 2 ^ 53 \<Longrightarrow> round64 (- numeral w) = Finite (- numeral w)"
  using round64_int [of "- numeral w"] by simp

lemma round64_0: "round64 0 = Finite 0"
  by (simp add: round64_def)

lemma round64_1: "round64 1 = Finite 1"
  using round64_int [of 1] by simp

text \<open>The rounding of a real number whose spacing is known.\<close>

lemma round64_eval:
  assumes "x \<noteq> 0" "ulp x = u" "roundEven (x / u) = k" "\<bar>of_int k * u\<bar> < 2 ^ 1024"
  shows "round64 x = Finite (of_int k * u)"
  using assms by (simp add: round64_def Let_def)

lemma round64_not_NaN: "round64 x \<noteq> NaN"
  by (simp add: round64_def Let_def)

text \<open>
  Two roundings that are not the identity. The integer \<open>2\<^sup>5\<^sup>3 + 1\<close> lies halfway between two
  binary64 values and goes to the even one, \<open>2\<^sup>5\<^sup>3\<close>. The difference of the binary64 values
  nearest to \<open>0.6\<close> and \<open>0.1\<close> is \<open>1/2 - 2\<^sup>-\<^sup>5\<^sup>5\<close>, which rounds to \<open>1/2\<close>.
\<close>

lemma round64_tie: "round64 9007199254740993 = Finite 9007199254740992"
proof -
  have u: "ulp 9007199254740993 = 2 ^ 1" by (rule ulp_large) simp_all
  have k: "roundEven (9007199254740993 / 2 ^ 1) = 4503599627370496"
    by (simp add: roundEven_def Let_def)
  have "round64 9007199254740993 = Finite (of_int 4503599627370496 * 2 ^ 1)"
    using _ u k by (rule round64_eval) simp_all
  then show ?thesis by simp
qed

lemma round64_half:
  "round64 (5404319552844595 / 2 ^ 53 - 3602879701896397 / 2 ^ 55) = Finite (1 / 2)"
proof -
  let ?x = "5404319552844595 / 2 ^ 53 - 3602879701896397 / 2 ^ 55 :: real"
  have x: "?x = 18014398509481983 / 2 ^ 55" by simp
  have u: "ulp ?x = 1 / 2 ^ (2 + 52)" by (rule ulp_small) simp_all
  have k: "roundEven (?x / (1 / 2 ^ (2 + 52))) = 9007199254740992"
    by (simp add: roundEven_def Let_def)
  have "round64 ?x = Finite (of_int 9007199254740992 * (1 / 2 ^ (2 + 52)))"
    using _ u k by (rule round64_eval) simp_all
  then show ?thesis by simp
qed

subsection \<open>The operations on trackers\<close>

lemma fsub_NaN: "fsub x h = NaN \<longleftrightarrow> x = NaN"
  by (cases x) (simp_all add: round64_not_NaN)

lemma fadd_NaN: "fadd x h = NaN \<longleftrightarrow> x = NaN"
  by (cases x) (simp_all add: round64_not_NaN)

lemma fsub_int:
  "\<bar>a - h\<bar> < 2 ^ 53 \<Longrightarrow> fsub (Finite (of_int a)) (of_int h) = Finite (of_int (a - h))"
  using round64_int [of "a - h"] by simp

lemma fadd_int:
  "\<bar>a + h\<bar> < 2 ^ 53 \<Longrightarrow> fadd (Finite (of_int a)) (of_int h) = Finite (of_int (a + h))"
  using round64_int [of "a + h"] by simp

lemma foldl_fsub_NaN: "foldl fsub x hs = NaN \<longleftrightarrow> x = NaN"
  by (induction hs arbitrary: x) (simp_all add: fsub_NaN)

lemma numMin_Infinity: "x \<noteq> NaN \<Longrightarrow> numMin x (Infinite False) = x"
  by (cases x) (auto simp: numMin_def)

lemma fold_numMin_in:
  "NaN \<notin> set xs \<Longrightarrow> acc \<noteq> NaN \<Longrightarrow> fold numMin xs acc \<in> insert acc (set xs)"
proof (induction xs arbitrary: acc)
  case Nil
  then show ?case by simp
next
  case (Cons x xs)
  have n: "numMin x acc \<noteq> NaN" using Cons.prems by (auto simp: numMin_def)
  have "fold numMin xs (numMin x acc) \<in> insert (numMin x acc) (set xs)"
    using Cons.prems n by (intro Cons.IH) simp_all
  moreover have "numMin x acc = x \<or> numMin x acc = acc" by (simp add: numMin_def)
  ultimately show ?case by auto
qed

lemma mathMin_in:
  assumes "NaN \<notin> set xs" "xs \<noteq> []"
  shows "mathMin xs \<in> set xs" "mathMin xs \<noteq> NaN"
proof -
  obtain x ys where xs: "xs = x # ys" using assms(2) by (cases xs) simp_all
  have x: "x \<noteq> NaN" and ys: "NaN \<notin> set ys" using assms(1) xs by auto
  have "mathMin xs = fold numMin ys x" using x by (simp add: mathMin_def xs numMin_Infinity)
  moreover have "fold numMin ys x \<in> insert x (set ys)" using ys x by (rule fold_numMin_in)
  ultimately show "mathMin xs \<in> set xs" by (simp add: xs)
  then show "mathMin xs \<noteq> NaN" using assms(1) by metis
qed

lemma indexOf_Some:
  "v \<in> set xs \<Longrightarrow> v \<noteq> NaN \<Longrightarrow> \<exists>i. indexOf xs v = Some i \<and> i < length xs \<and> xs ! i = v"
  by (induction xs) auto

subsection \<open>Decimal numerals\<close>

lemma digitVal_digit: "d < 10 \<Longrightarrow> digitVal 10 (48 + d) = Some d"
  by (simp add: digitVal_def Let_def)

lemma isDigitOf_digit: "d < 10 \<Longrightarrow> isDigitOf 10 (48 + d)"
  by (simp add: isDigitOf_def digitVal_digit)

lemma showNat_digits: "\<forall>c \<in> set (showNat n). isDigitOf 10 c"
proof (induction n rule: showNat.induct)
  case (1 n)
  show ?case
  proof (cases "n < 10")
    case True
    then show ?thesis by (subst showNat.simps) (simp add: isDigitOf_digit)
  next
    case False
    have "n mod 10 < 10" by simp
    then have "isDigitOf 10 (48 + n mod 10)" by (rule isDigitOf_digit)
    with False 1 show ?thesis by (subst showNat.simps) auto
  qed
qed

lemma showNat_nonempty: "showNat n \<noteq> []"
  by (subst showNat.simps) simp

lemma digitsVal_snoc:
  "digitsVal r (ds @ [c]) = digitsVal r ds * r + the (digitVal r c)"
  by (simp add: digitsVal_def)

lemma digitsVal_showNat: "digitsVal 10 (showNat n) = n"
proof (induction n rule: showNat.induct)
  case (1 n)
  show ?case
  proof (cases "n < 10")
    case True
    then show ?thesis
      by (subst showNat.simps) (simp add: digitsVal_def digitVal_digit)
  next
    case False
    have "digitsVal 10 (showNat n)
            = digitsVal 10 (showNat (n div 10)) * 10 + the (digitVal 10 (48 + n mod 10))"
      using False by (subst showNat.simps) (simp add: digitsVal_snoc)
    also have "\<dots> = (n div 10) * 10 + n mod 10"
      using False 1 by (simp add: digitVal_digit)
    finally show ?thesis by simp
  qed
qed

text \<open>A decimal digit is a code unit from 48 to 57: no white space, sign or letter.\<close>

lemma digit_range: "isDigitOf 10 c \<longleftrightarrow> 48 \<le> c \<and> c \<le> 57"
  by (auto simp: isDigitOf_def digitVal_def Let_def)

lemma digit_not_space: "isDigitOf 10 c \<Longrightarrow> \<not> isSpace c"
  by (auto simp: digit_range isSpace_def)

lemma digits_prefix:
  assumes "\<forall>c \<in> set ds. isDigitOf 10 c" and "c < 48 \<or> 57 < c"
  shows "take 2 ds \<noteq> [a, c]"
proof
  assume "take 2 ds = [a, c]"
  then have "c \<in> set (take 2 ds)" by simp
  then have "c \<in> set ds" by (rule in_set_takeD)
  with assms show False by (auto simp: digit_range)
qed

lemma parseInt_digits:
  assumes d: "\<forall>c \<in> set ds. isDigitOf 10 c" and ne: "ds \<noteq> []"
  shows "parseInt ds = round64 (real (digitsVal 10 ds))"
proof -
  have hd: "isDigitOf 10 (hd ds)" using d ne by simp
  have dw: "dropWhile isSpace ds = ds"
    using hd ne digit_not_space by (cases ds) simp_all
  have tw: "takeWhile (isDigitOf 10) ds = ds" using d by simp
  have sg: "hd ds \<noteq> 43" "hd ds \<noteq> 45" using hd by (auto simp: digit_range)
  have px: "take 2 ds \<noteq> js ''0x''" "take 2 ds \<noteq> js ''0X''"
    using digits_prefix [OF d] by (simp_all add: js_def)
  show ?thesis
    unfolding parseInt_def Let_def dw
    using ne sg px by (simp add: tw)
qed

lemma parseInt_minus_digits:
  assumes d: "\<forall>c \<in> set ds. isDigitOf 10 c" and ne: "ds \<noteq> []"
  shows "parseInt (45 # ds) = negate (round64 (real (digitsVal 10 ds)))"
proof -
  have sp: "\<not> isSpace 45" by (simp add: isSpace_def)
  have tw: "takeWhile (isDigitOf 10) ds = ds" using d by simp
  have px: "take 2 ds \<noteq> js ''0x''" "take 2 ds \<noteq> js ''0X''"
    using digits_prefix [OF d] by (simp_all add: js_def)
  show ?thesis
    using sp ne px by (simp add: parseInt_def Let_def tw)
qed

text \<open>\<^verbatim>\<open>ToNumber\<close> reads a decimal numeral as the nearest Number.\<close>

lemma stringToNumber_showNat: "stringToNumber (showNat n) = round64 (real n)"
proof -
  let ?ds = "showNat n"
  have d: "\<forall>c \<in> set ?ds. isDigitOf 10 c" by (rule showNat_digits)
  have ne: "?ds \<noteq> []" by (rule showNat_nonempty)
  have hd: "isDigitOf 10 (hd ?ds)" using d ne by simp
  have la: "isDigitOf 10 (hd (rev ?ds))" using d ne by (simp add: hd_rev)
  have dw: "dropWhile isSpace ?ds = ?ds"
    using hd ne digit_not_space by (cases ?ds) simp_all
  have dr: "dropWhile isSpace (rev ?ds) = rev ?ds"
    using la ne digit_not_space by (cases "rev ?ds") simp_all
  have tr: "rev (dropWhile isSpace (rev (dropWhile isSpace ?ds))) = ?ds"
    by (simp add: dw dr)
  have tw: "takeWhile (isDigitOf 10) ?ds = ?ds" using d by simp
  have dd: "dropWhile (isDigitOf 10) ?ds = []" using d by simp
  have sg: "hd ?ds \<noteq> 43" "hd ?ds \<noteq> 45" "hd ?ds \<noteq> 73" using hd by (auto simp: digit_range)
  have inf: "?ds \<noteq> js ''Infinity''" using sg(3) ne by (auto simp: js_def)
  have px: "take 2 ?ds \<noteq> js ''0x''" "take 2 ?ds \<noteq> js ''0X''"
    "take 2 ?ds \<noteq> js ''0o''" "take 2 ?ds \<noteq> js ''0O''"
    "take 2 ?ds \<noteq> js ''0b''" "take 2 ?ds \<noteq> js ''0B''"
    using digits_prefix [OF d] by (simp_all add: js_def)
  have u: "unsignedDecimal ?ds = round64 (real n)"
    using ne by (simp add: unsignedDecimal_def Let_def tw dd scale10_def digitsVal_showNat)
  show ?thesis
    unfolding stringToNumber_def Let_def tr
    using ne sg px inf by (simp add: u)
qed

text \<open>\<^verbatim>\<open>ToInt32\<close> of a natural number, and of a Number that is none.\<close>

lemma toInt32_nat:
  "toInt32 (Finite (real n))
     = (if 2 ^ 31 \<le> int n mod 2 ^ 32 then int n mod 2 ^ 32 - 2 ^ 32 else int n mod 2 ^ 32)"
  by (simp add: toInt32_def Let_def)


section \<open>Slot classification: results\<close>

lemma cellFilter_kind:
  "cellFilter st v =
     (case kindOf v of
        Excluded \<Rightarrow> (st, False)
      | Refresh \<Rightarrow> (st\<lparr>this_refresh := Some v\<rparr>, False)
      | Loading \<Rightarrow> (st\<lparr>this_loading := Some v\<rparr>, False)
      | Header \<Rightarrow> (st\<lparr>this_headers := this_headers st @ [v]\<rparr>, False)
      | Footer \<Rightarrow> (st\<lparr>this_footers := this_footers st @ [v]\<rparr>, False)
      | Other \<Rightarrow> (st\<lparr>this_others := this_others st @ [v]\<rparr>, False)
      | Cell \<Rightarrow> (st, True))"
  by (cases "componentOptions v"; cases "attrs v")
     (auto simp: cellFilter_def kindOf_def Let_def)

lemma filterSlots_groups:
  "filterSlots st slots =
     (st\<lparr>this_refresh := lastOr (this_refresh st) (ofKind Refresh slots),
         this_loading := lastOr (this_loading st) (ofKind Loading slots),
         this_headers := this_headers st @ ofKind Header slots,
         this_others := this_others st @ ofKind Other slots,
         this_footers := this_footers st @ ofKind Footer slots\<rparr>,
      ofKind Cell slots)"
proof (induction slots arbitrary: st)
  case Nil
  show ?case by (simp add: ofKind_def lastOr_def)
next
  case (Cons v vs)
  show ?case
    by (cases "kindOf v")
       (simp_all add: cellFilter_kind Cons.IH ofKind_def lastOr_def)
qed

lemma kindOf_Cell_tag:
  "kindOf v = Cell \<Longrightarrow> map_option ctag (componentOptions v) = Some (Some ''cell'')"
  by (cases "componentOptions v"; cases "attrs v")
     (auto simp: kindOf_def split: if_splits)

lemma ofKind_Cell_tags:
  "map (\<lambda>v. map_option ctag (componentOptions v)) (ofKind Cell slots)
     = replicate (length (ofKind Cell slots)) (Some (Some ''cell''))"
  by (induction slots) (simp_all add: ofKind_def kindOf_Cell_tag)

lemma createChildren_groups:
  "createChildren st slots =
     (st\<lparr>this_refresh := lastOr (this_refresh st) (ofKind Refresh slots),
         this_loading := lastOr (this_loading st) (ofKind Loading slots),
         this_headers := ofKind Header slots,
         this_others := ofKind Other slots,
         this_footers := ofKind Footer slots\<rparr>,
      [Div Inner
        (pushIf (lastOr (this_refresh st) (ofKind Refresh slots))
         @ map Slot (ofKind Header slots)
         @ map Slot (ofKind Other slots)
         @ [Div WaterfallList (genList (ofKind Cell slots))]
         @ map Slot (ofKind Footer slots)
         @ pushIf (lastOr (this_loading st) (ofKind Loading slots)))])"
  by (simp add: createChildren_def filterSlots_groups)

lemma lastOr_kind:
  "lastOr old (ofKind k slots) = Some v \<Longrightarrow> old = Some v \<or> kindOf v = k"
proof (cases "ofKind k slots = []")
  case True
  assume "lastOr old (ofKind k slots) = Some v"
  with True show ?thesis by (simp add: lastOr_def)
next
  case False
  assume "lastOr old (ofKind k slots) = Some v"
  with False have "v = last (ofKind k slots)" by (simp add: lastOr_def)
  with False have "v \<in> set (ofKind k slots)" by simp
  then show ?thesis by (simp add: ofKind_def)
qed

lemma stateOk_initState: "stateOk initState"
  by (simp add: stateOk_def initState_def)

lemma stateOk_createChildren:
  assumes "stateOk st"
  shows "stateOk (fst (createChildren st slots))"
proof -
  have r: "case lastOr (this_refresh st) (ofKind Refresh slots) of
             None \<Rightarrow> True | Some v \<Rightarrow> kindOf v = Refresh"
    using assms lastOr_kind [of "this_refresh st" Refresh slots]
    by (auto simp: stateOk_def split: option.splits)
  have l: "case lastOr (this_loading st) (ofKind Loading slots) of
             None \<Rightarrow> True | Some v \<Rightarrow> kindOf v = Loading"
    using assms lastOr_kind [of "this_loading st" Loading slots]
    by (auto simp: stateOk_def split: option.splits)
  show ?thesis using r l by (simp add: createChildren_groups stateOk_def)
qed

lemma slotsOf_genList: "concat (map slotsOf (genList cells)) = cells"
  by (induction cells) (simp_all add: genList_def)

lemma slotsOf_Slots: "concat (map slotsOf (map Slot vs)) = vs"
  by (induction vs) simp_all

lemma set_pushIf: "(\<Union>a\<in>set (pushIf x). set (slotsOf a)) = set_option x"
  by (cases x) (simp_all add: pushIf_def)

lemma slots_of_children:
  "set (concat (map slotsOf (snd (createChildren st slots))))
     = set_option (lastOr (this_refresh st) (ofKind Refresh slots))
       \<union> set (ofKind Header slots) \<union> set (ofKind Other slots)
       \<union> set (ofKind Cell slots) \<union> set (ofKind Footer slots)
       \<union> set_option (lastOr (this_loading st) (ofKind Loading slots))"
  by (simp add: createChildren_groups slotsOf_genList slotsOf_Slots set_pushIf Un_assoc)

lemma kindOf_Excluded:
  "kindOf v = Excluded \<longleftrightarrow> (falsyStr (tag v) \<or> componentOptions v = None)"
  by (cases "componentOptions v"; cases "attrs v") (auto simp: kindOf_def)

text \<open>
  C6. For every slot sequence (and every state left by earlier calls), the children built
  are one inner container holding, in this order: the refresh node if there is one, the
  header nodes, the other component nodes, the list container, the footer nodes (headers
  whose \<^verbatim>\<open>data-type\<close> attribute is \<^verbatim>\<open>footer\<close>), and the loading node if there is one. The
  list container holds one wrapper per cell node and nothing else, and every node in it has
  the component tag \<^verbatim>\<open>cell\<close>.
\<close>

theorem createChildren_order:
  "snd (createChildren st slots) =
     [Div Inner
       ((case lastOr (this_refresh st) (ofKind Refresh slots) of
           None \<Rightarrow> [] | Some refresh \<Rightarrow> [Slot refresh])
        @ map Slot (ofKind Header slots)
        @ map Slot (ofKind Other slots)
        @ [Div WaterfallList (map (\<lambda>c. Div CellWrapper [Slot c]) (ofKind Cell slots))]
        @ map Slot (ofKind Footer slots)
        @ (case lastOr (this_loading st) (ofKind Loading slots) of
             None \<Rightarrow> [] | Some loading \<Rightarrow> [Slot loading]))]
   \<and> map (\<lambda>v. map_option ctag (componentOptions v)) (ofKind Cell slots)
       = replicate (length (ofKind Cell slots)) (Some (Some ''cell''))"
  by (simp add: createChildren_groups genList_def ofKind_Cell_tags pushIf_def)

text \<open>
  C10. A node with no tag or no \<^verbatim>\<open>componentOptions\<close> occurs nowhere in the children
  built, whatever the slot sequence, provided the references kept from earlier calls are
  refresh and loading nodes (as they are initially and after every call).
\<close>

theorem excluded_not_in_children:
  assumes "stateOk st"
    and "falsyStr (tag v) \<or> componentOptions v = None"
  shows "v \<notin> set (concat (map slotsOf (snd (createChildren st slots))))"
proof -
  have ex: "kindOf v = Excluded" using assms(2) by (simp add: kindOf_Excluded)
  have r: "v \<notin> set_option (lastOr (this_refresh st) (ofKind Refresh slots))"
  proof
    assume "v \<in> set_option (lastOr (this_refresh st) (ofKind Refresh slots))"
    then have "lastOr (this_refresh st) (ofKind Refresh slots) = Some v"
      by (cases "lastOr (this_refresh st) (ofKind Refresh slots)") simp_all
    then have "this_refresh st = Some v \<or> kindOf v = Refresh" by (rule lastOr_kind)
    with assms(1) ex show False by (auto simp: stateOk_def)
  qed
  have l: "v \<notin> set_option (lastOr (this_loading st) (ofKind Loading slots))"
  proof
    assume "v \<in> set_option (lastOr (this_loading st) (ofKind Loading slots))"
    then have "lastOr (this_loading st) (ofKind Loading slots) = Some v"
      by (cases "lastOr (this_loading st) (ofKind Loading slots)") simp_all
    then have "this_loading st = Some v \<or> kindOf v = Loading" by (rule lastOr_kind)
    with assms(1) ex show False by (auto simp: stateOk_def)
  qed
  show ?thesis
    unfolding slots_of_children using ex r l by (simp add: ofKind_def)
qed

theorem excluded_not_in_children_witness:
  "stateOk initState
   \<and> (falsyStr (tag \<lparr>key = 0, tag = None, componentOptions = None, attrs = None\<rparr>)
      \<or> componentOptions \<lparr>key = 0, tag = None, componentOptions = None, attrs = None\<rparr> = None)
   \<and> \<lparr>key = 0, tag = None, componentOptions = None, attrs = None\<rparr>
      \<notin> set (concat (map slotsOf (snd (createChildren initState
          [\<lparr>key = 0, tag = None, componentOptions = None, attrs = None\<rparr>,
           \<lparr>key = 1, tag = Some ''vue-component-1-cell'',
            componentOptions = Some \<lparr>ctag = Some ''cell''\<rparr>, attrs = None\<rparr>]))))"
  using excluded_not_in_children [of initState
      "\<lparr>key = 0, tag = None, componentOptions = None, attrs = None\<rparr>"
      "[\<lparr>key = 0, tag = None, componentOptions = None, attrs = None\<rparr>,
        \<lparr>key = 1, tag = Some ''vue-component-1-cell'',
         componentOptions = Some \<lparr>ctag = Some ''cell''\<rparr>, attrs = None\<rparr>]"]
  by (simp add: stateOk_initState)

section \<open>The \<^verbatim>\<open>columnGap\<close> validator: results\<close>

lemma showNat_0: "showNat 0 = js ''0''"
  by (subst showNat.simps) (simp add: js_def)

lemma toString_0: "toString printNumber (Num (Finite 0)) = js ''0''"
  by (simp add: showInt_def showNat_0)

lemma parseInt_0: "parseInt (js ''0'') = Finite 0"
  by (simp add: parseInt_def Let_def js_def isSpace_def isDigitOf_def digitVal_def digitsVal_def
        round64_0)

lemma parseInt_minus5: "parseInt (js ''-5'') = Finite (- 5)"
  by (simp add: parseInt_def Let_def js_def isSpace_def isDigitOf_def digitVal_def digitsVal_def
        round64_numeral)

lemma parseInt_words:
  "parseInt (js ''NaN'') = NaN" "parseInt (js ''undefined'') = NaN" "parseInt (js ''null'') = NaN"
  "parseInt (js ''Infinity'') = NaN" "parseInt (js ''-Infinity'') = NaN"
  by (simp_all add: parseInt_def Let_def js_def isSpace_def isDigitOf_def digitVal_def)

text \<open>
  Of the Numbers that are integers below \<open>2\<^sup>5\<^sup>3\<close> in magnitude, the validator accepts those
  from \<open>0\<close> on: \<^verbatim>\<open>parseInt\<close> reads back the decimal numeral, and \<open>0\<close> passes the first test.
\<close>

lemma parseInt_integer:
  assumes "\<bar>n\<bar> < 2 ^ 53"
  shows "parseInt (toString printNumber (Num (Finite (of_int n)))) = Finite (of_int n)"
proof -
  have b: "\<bar>real_of_int n\<bar> < 2 ^ 53"
  proof -
    have "real_of_int \<bar>n\<bar> < real_of_int (2 ^ 53)" using assms by (simp only: of_int_less_iff)
    then show ?thesis by simp
  qed
  have s: "toString printNumber (Num (Finite (of_int n))) = showInt n" using b by simp
  have m: "nat \<bar>n\<bar> < 2 ^ 53" using assms by (simp add: nat_less_iff)
  show ?thesis
  proof (cases "n < 0")
    case True
    define k where "k = nat (- n)"
    have k: "k < 2 ^ 53" using m True by (simp add: k_def)
    have r: "real k = - real_of_int n" using True by (simp add: k_def)
    have "parseInt (45 # showNat k) = negate (round64 (real k))"
      using parseInt_minus_digits [OF showNat_digits showNat_nonempty, of k]
      by (simp only: digitsVal_showNat)
    also have "\<dots> = negate (Finite (real k))" using k by (simp only: round64_nat)
    also have "\<dots> = Finite (real_of_int n)" by (simp add: r)
    finally show ?thesis unfolding s using True by (simp add: showInt_def k_def)
  next
    case False
    define k where "k = nat n"
    have k: "k < 2 ^ 53" using m False by (simp add: k_def)
    have r: "real k = real_of_int n" using False by (simp add: k_def)
    have "parseInt (showNat k) = round64 (real k)"
      using parseInt_digits [OF showNat_digits showNat_nonempty, of k]
      by (simp only: digitsVal_showNat)
    also have "\<dots> = Finite (real k)" using k by (simp only: round64_nat)
    also have "\<dots> = Finite (real_of_int n)" by (simp add: r)
    finally show ?thesis unfolding s using False by (simp add: showInt_def k_def)
  qed
qed

lemma validator_integer:
  assumes "\<bar>n\<bar> < 2 ^ 53"
  shows "columnGap_validator printNumber (Num (Finite (of_int n))) \<longleftrightarrow> 0 \<le> n"
  unfolding columnGap_validator_def parseInt_integer [OF assms] by auto

lemma validator_Str:
  "columnGap_validator printNumber (Str s) \<longleftrightarrow>
     (s = [] \<or> s = js ''normal'' \<or> positive (parseInt s))"
  by (simp add: columnGap_validator_def)

text \<open>
  C7, at a failing input. The Number \<open>0\<close> is accepted: it is falsy, so the first test of
  the validator returns \<^verbatim>\<open>true\<close> before anything is parsed. It is neither \<^verbatim>\<open>normal\<close> nor
  empty or absent, and it parses to \<open>0\<close>, which is not strictly positive; the test
  \<^verbatim>\<open>val > 0\<close> of the last line rejects the same value written as the string \<^verbatim>\<open>0\<close>. The
  Number \<^verbatim>\<open>NaN\<close> is accepted in the same way. The string \<^verbatim>\<open>-5\<close> is rejected.
\<close>

theorem columnGap_zero_accepted:
  "columnGap_validator printNumber (Num (Finite 0))
   \<and> parseInt (toString printNumber (Num (Finite 0))) = Finite 0
   \<and> \<not> specAccepts printNumber (Num (Finite 0))
   \<and> \<not> columnGap_validator printNumber (Str (js ''0''))
   \<and> columnGap_validator printNumber (Num NaN)
   \<and> \<not> specAccepts printNumber (Num NaN)
   \<and> \<not> columnGap_validator printNumber (Str (js ''-5''))"
proof -
  have n: "js ''0'' \<noteq> js ''normal''" "js ''-5'' \<noteq> js ''normal''" "js ''0'' \<noteq> []" "js ''-5'' \<noteq> []"
    by (simp_all add: js_def)
  have a: "columnGap_validator printNumber (Num (Finite 0))"
    "columnGap_validator printNumber (Num NaN)"
    by (simp_all add: columnGap_validator_def)
  have b: "parseInt (toString printNumber (Num (Finite 0))) = Finite 0"
    by (simp only: toString_0 parseInt_0)
  have c: "\<not> specAccepts printNumber (Num (Finite 0))"
    unfolding specAccepts_def b by simp
  have d: "\<not> columnGap_validator printNumber (Str (js ''0''))"
    unfolding validator_Str parseInt_0 using n by simp
  have e: "\<not> specAccepts printNumber (Num NaN)"
    by (simp add: specAccepts_def parseInt_words)
  have f: "\<not> columnGap_validator printNumber (Str (js ''-5''))"
    unfolding validator_Str parseInt_minus5 using n by simp
  show ?thesis using a b c d e f by simp
qed

section \<open>The reflow pass: results\<close>

subsection \<open>The two hosts\<close>

lemma mset_insertByPos: "mset (insertByPos cmp x ys) = add_mset x (mset ys)"
  by (induction ys) simp_all

lemma mset_insertByNeg: "mset (insertByNeg cmp x ys) = add_mset x (mset ys)"
  by (induction ys) simp_all

lemma mset_foldl_insertByPos:
  "mset (foldl (\<lambda>sorted x. insertByPos cmp x sorted) acc xs) = mset acc + mset xs"
  by (induction xs arbitrary: acc) (simp_all add: mset_insertByPos)

lemma mset_foldl_insertByNeg:
  "mset (foldl (\<lambda>sorted x. insertByNeg cmp x sorted) acc xs) = mset acc + mset xs"
  by (induction xs arbitrary: acc) (simp_all add: mset_insertByNeg)

lemma rearranges_sortByPos: "rearranges sortByPos"
  by (simp add: rearranges_def sortByPos_def mset_foldl_insertByPos)

lemma rearranges_sortByNeg: "rearranges sortByNeg"
  by (simp add: rearranges_def sortByNeg_def mset_foldl_insertByNeg)

lemma rearranges_Nil: "rearranges hs \<Longrightarrow> hs cmp [] = []"
proof -
  assume "rearranges hs"
  then have "mset (hs cmp []) = mset []" unfolding rearranges_def by blast
  then show ?thesis by simp
qed

lemma rearranges_set: "rearranges hs \<Longrightarrow> set (hs cmp xs) = set xs"
proof -
  assume "rearranges hs"
  then have "mset (hs cmp xs) = mset xs" unfolding rearranges_def by blast
  then show ?thesis by (rule mset_eq_setD)
qed

text \<open>
  The comparison function of the pass never returns a negative number, and it breaks the
  symmetry a consistent comparison function has: it calls \<open>1\<close> and \<open>2\<close> equal one way round
  and ordered the other way round.
\<close>

lemma compareIds_nonneg: "0 \<le> compareIds a b"
  by (simp add: compareIds_def)

lemma compareIds_inconsistent: "compareIds 1 2 = 0 \<and> compareIds 2 1 \<noteq> 0"
  by (simp add: compareIds_def)

text \<open>A host that tests for a negative result leaves every array as it is.\<close>

lemma insertByNeg_compareIds: "insertByNeg compareIds x ys = x # ys"
  by (cases ys) (simp_all add: compareIds_def)

lemma foldl_Cons_rev: "foldl (\<lambda>sorted x. x # sorted) acc xs = rev xs @ acc"
  by (induction xs arbitrary: acc) simp_all

lemma sortByNeg_compareIds: "sortByNeg compareIds xs = xs"
  by (simp add: sortByNeg_def insertByNeg_compareIds foldl_Cons_rev)

text \<open>A host that tests for a positive result sorts with it.\<close>

lemma set_insertByPos: "set (insertByPos cmp x ys) = insert x (set ys)"
  by (induction ys) auto

lemma insertByPos_descending:
  "sorted_wrt (\<ge>) ys \<Longrightarrow> sorted_wrt (\<ge>) (insertByPos compareIds x ys)"
  by (induction ys) (auto simp: compareIds_def set_insertByPos)

lemma foldl_insertByPos_descending:
  "sorted_wrt (\<ge>) acc \<Longrightarrow>
     sorted_wrt (\<ge>) (foldl (\<lambda>sorted x. insertByPos compareIds x sorted) acc xs)"
  by (induction xs arbitrary: acc) (simp_all add: insertByPos_descending)

lemma sorted_sortByPos_compareIds: "sorted (sortByPos compareIds xs)"
proof -
  have "sorted_wrt (\<ge>) (foldl (\<lambda>sorted x. insertByPos compareIds x sorted) [] xs)"
    by (rule foldl_insertByPos_descending) simp
  then show ?thesis
    by (simp add: sortByPos_def sorted_wrt_rev)
qed

text \<open>With a comparison function that returns the difference, the second host sorts too.\<close>

lemma set_insertByNeg: "set (insertByNeg cmp x ys) = insert x (set ys)"
  by (induction ys) auto

lemma insertByNeg_descending:
  "sorted_wrt (\<ge>) ys \<Longrightarrow> sorted_wrt (\<ge>) (insertByNeg (\<lambda>a b. a - b) x ys)"
  by (induction ys) (auto simp: set_insertByNeg)

lemma foldl_insertByNeg_descending:
  "sorted_wrt (\<ge>) acc \<Longrightarrow>
     sorted_wrt (\<ge>) (foldl (\<lambda>sorted x. insertByNeg (\<lambda>a b. a - b) x sorted) acc xs)"
  by (induction xs arbitrary: acc) (simp_all add: insertByNeg_descending)

lemma sorted_sortByNeg_difference: "sorted (sortByNeg (\<lambda>a b. a - b) xs)"
proof -
  have "sorted_wrt (\<ge>) (foldl (\<lambda>sorted x. insertByNeg (\<lambda>a b. a - b) x sorted) [] xs)"
    by (rule foldl_insertByNeg_descending) simp
  then show ?thesis
    by (simp add: sortByNeg_def sorted_wrt_rev)
qed

subsection \<open>The scenario\<close>

lemmas number_defs =
  toNumber_def stringToNumber_def unsignedDecimal_def exponentPart_def radixLiteral_def
  scale10_def toInt32_def isSpace_def isDigitOf_def digitVal_def digitsVal_def js_def Let_def
  round64_0 round64_1 round64_numeral round64_neg_numeral

lemma cell_sel:
  "node (cell n a t b h) = n" "isCell (cell n a t b h)" "dataCell (cell n a t b h) = Some (js a)"
  "rect_top (cell n a t b h) = t" "rect_bottom (cell n a t b h) = b"
  "rect_height (cell n a t b h) = h"
  by (simp_all add: cell_def)

lemma scenario_ids:
  "cellId (cell n ''1'' t b h) = 1" "cellId (cell n ''2'' t b h) = 2"
  "cellId (cell n ''3'' t b h) = 3" "cellId (cell n ''5'' t b h) = 5"
  "cellId (cell n ''6'' t b h) = 6" "cellId (cell n ''7'' t b h) = 7"
  by (simp_all add: cellId_def cell_sel number_defs)

lemma scenario_shortest: "shortest scenario = (50, 1)"
  by (simp add: shortest_def scenario_def cell_sel lastBottom_def MAX_SAFE_INTEGER_def)

lemma scenario_belowCellIds: "belowCellIds (collectBelow scenario) = [6, 5, 7]"
  unfolding collectBelow_def scenario_shortest
  by (simp add: scenario_def cellsInColumn_def scenario_ids lastBottom_def cell_sel)

lemma scenario_columnBottoms:
  "columnBottoms (collectBelow scenario) = [Finite 50, Finite 50, Finite 70]"
  unfolding collectBelow_def scenario_shortest
  by (simp add: scenario_def cellsInColumn_def scenario_ids lastBottom_def cell_sel
        round64_numeral)

lemma scenario_belowCells:
  "belowCells (collectBelow scenario) 5 = Some (cell 5 ''5'' 60 80 20, 20)"
  "belowCells (collectBelow scenario) 6 = Some (cell 6 ''6'' 90 100 30, 30)"
  "belowCells (collectBelow scenario) 7 = Some (cell 7 ''7'' 70 80 10, 10)"
  unfolding collectBelow_def scenario_shortest
  by (simp_all add: scenario_def cellsInColumn_def scenario_ids lastBottom_def cell_sel)

lemma scenario_assignAll:
  assumes "cs 5 = Some (cell 5 ''5'' 60 80 20, 20)"
    and "cs 6 = Some (cell 6 ''6'' 90 100 30, 30)"
    and "cs 7 = Some (cell 7 ''7'' 70 80 10, 10)"
  shows "assignAll cs [5, 6, 7]
           \<lparr>columnDoms = scenario, columnAppendFragments = [[], [], []],
            bottoms = [Finite 50, Finite 50, Finite 70]\<rparr>
         = Inr \<lparr>columnDoms =
                  [[cell 1 ''1'' 0 50 50], [cell 2 ''2'' 0 50 50], [cell 3 ''3'' 0 70 70]],
                columnAppendFragments =
                  [[cell 5 ''5'' 60 80 20, cell 7 ''7'' 70 80 10],
                   [cell 6 ''6'' 90 100 30], []],
                bottoms = [Finite 80, Finite 80, Finite 70]\<rparr>"
    and "assignAll cs [6, 5, 7]
           \<lparr>columnDoms = scenario, columnAppendFragments = [[], [], []],
            bottoms = [Finite 50, Finite 50, Finite 70]\<rparr>
         = Inr \<lparr>columnDoms =
                  [[cell 1 ''1'' 0 50 50], [cell 2 ''2'' 0 50 50], [cell 3 ''3'' 0 70 70]],
                columnAppendFragments =
                  [[cell 6 ''6'' 90 100 30],
                   [cell 5 ''5'' 60 80 20, cell 7 ''7'' 70 80 10], []],
                bottoms = [Finite 80, Finite 80, Finite 70]\<rparr>"
  by (simp_all add: assms addToShortestColumn_def mathMin_def numMin_def Let_def detach_def
        scenario_def cell_sel round64_numeral)

text \<open>
  C1. In the scenario the trackers after the collection are \<open>50\<close>, \<open>50\<close> and \<open>70\<close>, and
  the loop over the identifiers 5, 6, 7 in this order puts cell 5 into column 0 (the first
  of the two columns at \<open>50\<close>), cell 6 into column 1 and cell 7 into column 0; the
  trackers end at \<open>80\<close>, \<open>80\<close> and \<open>70\<close>.
\<close>

theorem scenario_greedy_assignment:
  "columnBottoms (collectBelow scenario) = [Finite 50, Finite 50, Finite 70]
   \<and> assignAll (belowCells (collectBelow scenario)) [5, 6, 7]
        \<lparr>columnDoms = scenario, columnAppendFragments = replicate (length scenario) [],
         bottoms = columnBottoms (collectBelow scenario)\<rparr>
      = Inr \<lparr>columnDoms =
               [[cell 1 ''1'' 0 50 50], [cell 2 ''2'' 0 50 50], [cell 3 ''3'' 0 70 70]],
             columnAppendFragments =
               [[cell 5 ''5'' 60 80 20, cell 7 ''7'' 70 80 10],
                [cell 6 ''6'' 90 100 30], []],
             bottoms = [Finite 80, Finite 80, Finite 70]\<rparr>"
proof -
  have n: "replicate (length scenario) [] = [[], [], []::elem list]"
    by (simp add: scenario_def)
  show ?thesis
    unfolding scenario_columnBottoms n
    using scenario_assignAll(1) [OF scenario_belowCells] by simp
qed

text \<open>
  On a host that sorts with the boolean comparison, the pass over the scenario ends as the
  specification describes it.
\<close>

lemma scenario_pass_sorted:
  "reLayoutChildren sortByPos scenario
     = Inr [[cell 1 ''1'' 0 50 50, cell 5 ''5'' 60 80 20, cell 7 ''7'' 70 80 10],
            [cell 2 ''2'' 0 50 50, cell 6 ''6'' 90 100 30],
            [cell 3 ''3'' 0 70 70]]"
proof -
  have n: "replicate (length scenario) [] = [[], [], []::elem list]"
    by (simp add: scenario_def)
  have s: "sortByPos compareIds (belowCellIds (collectBelow scenario)) = [5, 6, 7]"
    by (simp add: scenario_belowCellIds sortByPos_def compareIds_def)
  show ?thesis
    unfolding reLayoutChildren_def assignPool_def s scenario_columnBottoms n
    using scenario_assignAll(1) [OF scenario_belowCells]
    by (simp add: appendFragments_def)
qed

text \<open>
  C2, at a failing input. On the scenario the collection yields the identifiers in the
  order 6, 5, 7 (each column is scanned from its last cell). A host whose sort tests the
  comparison result for being negative leaves them so, since the comparison function of
  the pass returns a boolean; the cells are then appended in the order 6, 5, 7, not in
  ascending order, and cell 6 goes to column 0, cells 5 and 7 to column 1.
\<close>

theorem scenario_sort_not_ascending:
  "rearranges sortByNeg
   \<and> belowCellIds (collectBelow scenario) = [6, 5, 7]
   \<and> sortByNeg compareIds (belowCellIds (collectBelow scenario)) = [6, 5, 7]
   \<and> reLayoutChildren sortByNeg scenario
      = Inr [[cell 1 ''1'' 0 50 50, cell 6 ''6'' 90 100 30],
             [cell 2 ''2'' 0 50 50, cell 5 ''5'' 60 80 20, cell 7 ''7'' 70 80 10],
             [cell 3 ''3'' 0 70 70]]"
proof -
  have n: "replicate (length scenario) [] = [[], [], []::elem list]"
    by (simp add: scenario_def)
  have s: "sortByNeg compareIds (belowCellIds (collectBelow scenario)) = [6, 5, 7]"
    by (simp add: sortByNeg_compareIds scenario_belowCellIds)
  have r: "reLayoutChildren sortByNeg scenario
      = Inr [[cell 1 ''1'' 0 50 50, cell 6 ''6'' 90 100 30],
             [cell 2 ''2'' 0 50 50, cell 5 ''5'' 60 80 20, cell 7 ''7'' 70 80 10],
             [cell 3 ''3'' 0 70 70]]"
    unfolding reLayoutChildren_def assignPool_def s scenario_columnBottoms n
    using scenario_assignAll(2) [OF scenario_belowCells]
    by (simp add: appendFragments_def)
  show ?thesis using rearranges_sortByNeg scenario_belowCellIds s r by simp
qed


subsection \<open>The shortest column\<close>

lemma fold_min_le: "fold min bs (x::real) \<le> x"
proof (induction bs arbitrary: x)
  case Nil
  show ?case by simp
next
  case (Cons b bs)
  have "fold min bs (min b x) \<le> min b x" by (rule Cons.IH)
  then show ?case by simp
qed

lemma findShortest_minimum:
  "fst (findShortest cols i (m, k)) = fold min (map lastBottom cols) m
   \<and> (if fst (findShortest cols i (m, k)) < m
      then indexOf (map (\<lambda>c. Finite (lastBottom c)) cols)
               (Finite (fst (findShortest cols i (m, k))))
             = Some (snd (findShortest cols i (m, k)) - i)
           \<and> i \<le> snd (findShortest cols i (m, k))
      else snd (findShortest cols i (m, k)) = k)"
proof (induction cols arbitrary: i m k)
  case Nil
  show ?case by simp
next
  case (Cons col cols)
  let ?b = "lastBottom col"
  show ?case
  proof (cases "?b < m")
    case True
    let ?r = "findShortest cols (Suc i) (?b, i)"
    have ih: "fst ?r = fold min (map lastBottom cols) ?b
       \<and> (if fst ?r < ?b
          then indexOf (map (\<lambda>c. Finite (lastBottom c)) cols) (Finite (fst ?r)) = Some (snd ?r - Suc i) \<and> Suc i \<le> snd ?r
          else snd ?r = i)"
      by (rule Cons.IH)
    have le: "fst ?r \<le> ?b" using ih fold_min_le [of "map lastBottom cols" ?b] by simp
    have m: "min ?b m = ?b" using True by simp
    show ?thesis
    proof (cases "fst ?r < ?b")
      case True
      then show ?thesis using ih \<open>?b < m\<close> m by (auto simp: Suc_diff_Suc)
    next
      case False
      then have "fst ?r = ?b" using le by simp
      then show ?thesis using ih \<open>?b < m\<close> m by simp
    qed
  next
    case False
    let ?r = "findShortest cols (Suc i) (m, k)"
    have ih: "fst ?r = fold min (map lastBottom cols) m
       \<and> (if fst ?r < m
          then indexOf (map (\<lambda>c. Finite (lastBottom c)) cols) (Finite (fst ?r)) = Some (snd ?r - Suc i) \<and> Suc i \<le> snd ?r
          else snd ?r = k)"
      by (rule Cons.IH)
    have m: "min ?b m = m" using False by simp
    show ?thesis
    proof (cases "fst ?r < m")
      case True
      then have "fst ?r \<noteq> ?b" using False by auto
      then show ?thesis using ih True False m by (auto simp: Suc_diff_Suc)
    next
      case F: False
      then show ?thesis using ih False m by simp
    qed
  qed
qed

lemma fold_min_Min: "fold min bs (x::real) = Min (insert x (set bs))"
proof (induction bs arbitrary: x)
  case Nil
  show ?case by simp
next
  case (Cons b bs)
  have "fold min (b # bs) x = Min (insert (min b x) (set bs))" by (simp add: Cons.IH)
  also have "\<dots> = Min (insert x (insert b (set bs)))"
  proof (cases "set bs = {}")
    case True
    then show ?thesis by (simp add: min.commute)
  next
    case False
    then show ?thesis by (simp add: min.assoc min.left_commute min.commute)
  qed
  finally show ?case by simp
qed

text \<open>
  When some column ends above \<^verbatim>\<open>Number.MAX_SAFE_INTEGER\<close>, step 1 finds the least bottom
  and the first column that has it.
\<close>

lemma shortest_minimum:
  assumes "\<exists>col \<in> set cols. lastBottom col < MAX_SAFE_INTEGER"
  shows "fst (shortest cols) = Min (lastBottom ` set cols)"
    and "indexOf (map (\<lambda>c. Finite (lastBottom c)) cols) (Finite (fst (shortest cols))) = Some (snd (shortest cols))"
proof -
  obtain col where c: "col \<in> set cols" "lastBottom col < MAX_SAFE_INTEGER"
    using assms by blast
  let ?B = "lastBottom ` set cols"
  have fin: "finite ?B" and ne: "?B \<noteq> {}" using c(1) by auto
  have f: "fst (shortest cols) = Min (insert MAX_SAFE_INTEGER ?B)"
    using findShortest_minimum [of cols 0 MAX_SAFE_INTEGER 0]
    by (simp add: shortest_def fold_min_Min)
  have "Min ?B \<le> lastBottom col" using fin c(1) by simp
  then have lt: "Min ?B < MAX_SAFE_INTEGER" using c(2) by simp
  have "Min (insert MAX_SAFE_INTEGER ?B) = min MAX_SAFE_INTEGER (Min ?B)"
    using fin ne by (rule Min_insert)
  then have e: "fst (shortest cols) = Min ?B" using f lt by simp
  show "fst (shortest cols) = Min (lastBottom ` set cols)" by (rule e)
  let ?r = "findShortest cols 0 (MAX_SAFE_INTEGER, 0)"
  have lt': "fst ?r < MAX_SAFE_INTEGER" using e lt by (simp add: shortest_def)
  have "if fst ?r < MAX_SAFE_INTEGER
        then indexOf (map (\<lambda>c. Finite (lastBottom c)) cols) (Finite (fst ?r)) = Some (snd ?r - 0) \<and> 0 \<le> snd ?r
        else snd ?r = 0"
    using findShortest_minimum [of cols 0 MAX_SAFE_INTEGER 0] by (rule conjunct2)
  then have "indexOf (map (\<lambda>c. Finite (lastBottom c)) cols) (Finite (fst ?r)) = Some (snd ?r - 0) \<and> 0 \<le> snd ?r"
    by (simp only: lt' if_True)
  then have "indexOf (map (\<lambda>c. Finite (lastBottom c)) cols) (Finite (fst ?r)) = Some (snd ?r)"
    by (simp only: diff_zero)
  then show "indexOf (map (\<lambda>c. Finite (lastBottom c)) cols) (Finite (fst (shortest cols))) = Some (snd (shortest cols))"
    by (simp only: shortest_def)
qed

lemma indexOf_first:
  "indexOf xs v = Some k \<Longrightarrow> k < length xs \<and> xs ! k = v \<and> (\<forall>j < k. xs ! j \<noteq> v)"
proof (induction xs arbitrary: k)
  case Nil
  then show ?case by simp
next
  case (Cons x xs)
  show ?case
  proof (cases "x = v \<and> v \<noteq> NaN")
    case True
    then show ?thesis using Cons.prems by simp
  next
    case False
    then obtain k' where k: "indexOf xs v = Some k'" "k = Suc k'"
      using Cons.prems by auto
    have "k' < length xs \<and> xs ! k' = v \<and> (\<forall>j < k'. xs ! j \<noteq> v)"
      using k(1) by (rule Cons.IH)
    moreover have "x \<noteq> v"
    proof
      assume "x = v"
      then have "v = NaN" using False by simp
      then have "xs ! k' = NaN" using \<open>k' < length xs \<and> xs ! k' = v \<and> (\<forall>j < k'. xs ! j \<noteq> v)\<close> by simp
      have "indexOf xs NaN = None" by (induction xs) simp_all
      then show False using k(1) \<open>v = NaN\<close> by simp
    qed
    ultimately show ?thesis using k(2) by (auto simp: nth_Cons')
  qed
qed

subsection \<open>The collection\<close>

lemma scanCells_pool:
  assumes "i < length (columnBottoms p)"
  shows "scanCells m i cs p =
     \<lparr>belowCellIds = belowCellIds p @ map cellId (filter (\<lambda>c. m < rect_top c) cs),
      belowCells = (\<lambda>x. lastEntry (belowCells p x)
                       (filter (\<lambda>c. cellId c = x) (filter (\<lambda>c. m < rect_top c) cs))),
      columnBottoms =
        (columnBottoms p)[i := foldl fsub (columnBottoms p ! i)
                                (map rect_height (filter (\<lambda>c. m < rect_top c) cs))]\<rparr>"
  using assms
proof (induction cs arbitrary: p)
  case Nil
  then show ?case by (simp add: lastEntry_def)
next
  case (Cons c cs)
  show ?case
  proof (cases "m < rect_top c")
    case False
    then show ?thesis using Cons by simp
  next
    case True
    let ?p = "\<lparr>belowCellIds = belowCellIds p @ [cellId c],
              belowCells = (belowCells p)(cellId c \<mapsto> (c, rect_height c)),
              columnBottoms = (columnBottoms p)[i := fsub (columnBottoms p ! i) (rect_height c)]\<rparr>"
    have len: "i < length (columnBottoms ?p)" using Cons.prems by simp
    have m: "(\<lambda>x. lastEntry (belowCells ?p x)
                (filter (\<lambda>d. cellId d = x) (filter (\<lambda>d. m < rect_top d) cs)))
           = (\<lambda>x. lastEntry (belowCells p x)
                (filter (\<lambda>d. cellId d = x) (filter (\<lambda>d. m < rect_top d) (c # cs))))"
      using True by (auto simp: lastEntry_def fun_eq_iff)
    show ?thesis
      using True Cons.prems
      by (simp add: Cons.IH [OF len] m [simplified])
  qed
qed


lemma scanCells_candidates:
  assumes "i < length (columnBottoms p)"
  shows "scanCells m i (rev (cellsInColumn col)) p =
     \<lparr>belowCellIds = belowCellIds p @ map cellId (candidates m col),
      belowCells = (\<lambda>x. lastEntry (belowCells p x)
                       (filter (\<lambda>c. cellId c = x) (candidates m col))),
      columnBottoms =
        (columnBottoms p)[i := foldl fsub (columnBottoms p ! i)
                                (map rect_height (candidates m col))]\<rparr>"
  by (simp add: scanCells_pool [OF assms] candidates_def)

lemma candidatesFrom_Nil: "candidatesFrom m k i [] = []"
  by (simp add: candidatesFrom_def)

lemma candidatesFrom_Cons:
  "candidatesFrom m k i (col # cols) =
     (if i = k then [] else candidates m col) @ candidatesFrom m k (Suc i) cols"
proof -
  have "[i ..< i + length (col # cols)] = i # [Suc i ..< Suc i + length cols]"
    by (simp add: upt_rec)
  then show ?thesis by (simp add: candidatesFrom_def)
qed

lemma lastEntry_append: "lastEntry (lastEntry old xs) ys = lastEntry old (xs @ ys)"
  by (simp add: lastEntry_def)

lemma collectFrom_length:
  "i + length cols \<le> length (columnBottoms p) \<Longrightarrow>
     length (columnBottoms (collectFrom m k i cols p)) = length (columnBottoms p)"
proof (induction cols arbitrary: i p)
  case Nil
  then show ?case by simp
next
  case (Cons col cols)
  have i: "i < length (columnBottoms p)" using Cons.prems by simp
  show ?case
  proof (cases "i = k")
    case True
    then show ?thesis using Cons.IH [of "Suc i" p] Cons.prems by simp
  next
    case False
    let ?p = "scanCells m i (rev (cellsInColumn col)) p"
    have l: "length (columnBottoms ?p) = length (columnBottoms p)"
      by (simp add: scanCells_candidates [OF i])
    have "length (columnBottoms (collectFrom m k (Suc i) cols ?p)) = length (columnBottoms ?p)"
      using Cons.prems l by (intro Cons.IH) simp
    then show ?thesis using False l by simp
  qed
qed

lemma collectFrom_ids:
  "i + length cols \<le> length (columnBottoms p) \<Longrightarrow>
     belowCellIds (collectFrom m k i cols p)
       = belowCellIds p @ map cellId (candidatesFrom m k i cols)"
proof (induction cols arbitrary: i p)
  case Nil
  then show ?case by (simp add: candidatesFrom_Nil)
next
  case (Cons col cols)
  have i: "i < length (columnBottoms p)" using Cons.prems by simp
  show ?case
  proof (cases "i = k")
    case True
    then show ?thesis
      using Cons.IH [of "Suc i" p] Cons.prems by (simp add: candidatesFrom_Cons)
  next
    case False
    let ?p = "scanCells m i (rev (cellsInColumn col)) p"
    have l: "length (columnBottoms ?p) = length (columnBottoms p)"
      by (simp add: scanCells_candidates [OF i])
    have "belowCellIds (collectFrom m k (Suc i) cols ?p)
            = belowCellIds ?p @ map cellId (candidatesFrom m k (Suc i) cols)"
      using Cons.prems l by (intro Cons.IH) simp
    then show ?thesis
      using False by (simp add: candidatesFrom_Cons scanCells_candidates [OF i])
  qed
qed

lemma collectFrom_cells:
  "i + length cols \<le> length (columnBottoms p) \<Longrightarrow>
     belowCells (collectFrom m k i cols p) x
       = lastEntry (belowCells p x) (filter (\<lambda>c. cellId c = x) (candidatesFrom m k i cols))"
proof (induction cols arbitrary: i p)
  case Nil
  then show ?case by (simp add: candidatesFrom_Nil lastEntry_def)
next
  case (Cons col cols)
  have i: "i < length (columnBottoms p)" using Cons.prems by simp
  show ?case
  proof (cases "i = k")
    case True
    then show ?thesis
      using Cons.IH [of "Suc i" p] Cons.prems by (simp add: candidatesFrom_Cons)
  next
    case False
    let ?p = "scanCells m i (rev (cellsInColumn col)) p"
    have l: "length (columnBottoms ?p) = length (columnBottoms p)"
      by (simp add: scanCells_candidates [OF i])
    have "belowCells (collectFrom m k (Suc i) cols ?p) x
            = lastEntry (belowCells ?p x)
                (filter (\<lambda>c. cellId c = x) (candidatesFrom m k (Suc i) cols))"
      using Cons.prems l by (intro Cons.IH) simp
    then show ?thesis
      using False
      by (simp add: candidatesFrom_Cons scanCells_candidates [OF i] lastEntry_append)
  qed
qed

lemma collectFrom_bottoms:
  "i + length cols \<le> length (columnBottoms p) \<Longrightarrow> j < length (columnBottoms p) \<Longrightarrow>
     columnBottoms (collectFrom m k i cols p) ! j
       = (if i \<le> j \<and> j < i + length cols \<and> j \<noteq> k
          then foldl fsub (columnBottoms p ! j) (map rect_height (candidates m (cols ! (j - i))))
          else columnBottoms p ! j)"
proof (induction cols arbitrary: i p)
  case Nil
  then show ?case by auto
next
  case (Cons col cols)
  have i: "i < length (columnBottoms p)" using Cons.prems by simp
  show ?case
  proof (cases "i = k")
    case True
    have "columnBottoms (collectFrom m k (Suc i) cols p) ! j
       = (if Suc i \<le> j \<and> j < Suc i + length cols \<and> j \<noteq> k
          then foldl fsub (columnBottoms p ! j)
                 (map rect_height (candidates m (cols ! (j - Suc i))))
          else columnBottoms p ! j)"
      using Cons.prems by (intro Cons.IH) simp_all
    then show ?thesis using True by (auto simp: nth_Cons')
  next
    case False
    let ?p = "scanCells m i (rev (cellsInColumn col)) p"
    have b: "columnBottoms ?p
        = (columnBottoms p)[i := foldl fsub (columnBottoms p ! i)
                                   (map rect_height (candidates m col))]"
      by (simp add: scanCells_candidates [OF i])
    have "columnBottoms (collectFrom m k (Suc i) cols ?p) ! j
       = (if Suc i \<le> j \<and> j < Suc i + length cols \<and> j \<noteq> k
          then foldl fsub (columnBottoms ?p ! j)
                 (map rect_height (candidates m (cols ! (j - Suc i))))
          else columnBottoms ?p ! j)"
      using Cons.prems b by (intro Cons.IH) simp_all
    then show ?thesis
      using False i Cons.prems(2) unfolding b
      by (cases "j = i") (auto simp: nth_Cons' nth_list_update)
  qed
qed


lemma set_candidates:
  "c \<in> set (candidates m col) \<longleftrightarrow> c \<in> set col \<and> isCell c \<and> m < rect_top c"
  by (auto simp: candidates_def cellsInColumn_def)

lemma set_candidatesFrom:
  "c \<in> set (candidatesFrom m k i cols) \<longleftrightarrow>
     (\<exists>j. j < length cols \<and> i + j \<noteq> k \<and> c \<in> set (candidates m (cols ! j)))"
proof (induction cols arbitrary: i)
  case Nil
  then show ?case by (simp add: candidatesFrom_Nil)
next
  case (Cons col cols)
  have "(\<exists>j. j < length (col # cols) \<and> i + j \<noteq> k \<and> c \<in> set (candidates m ((col # cols) ! j)))
      \<longleftrightarrow> (i \<noteq> k \<and> c \<in> set (candidates m col))
          \<or> (\<exists>j. j < length cols \<and> Suc i + j \<noteq> k \<and> c \<in> set (candidates m (cols ! j)))"
    (is "?L \<longleftrightarrow> ?A \<or> ?B")
  proof
    assume ?L
    then obtain j where j: "j < length (col # cols)" "i + j \<noteq> k"
      "c \<in> set (candidates m ((col # cols) ! j))" by blast
    show "?A \<or> ?B"
    proof (cases j)
      case 0
      with j show ?thesis by simp
    next
      case (Suc j')
      with j have "j' < length cols \<and> Suc i + j' \<noteq> k \<and> c \<in> set (candidates m (cols ! j'))"
        by simp
      then show ?thesis by blast
    qed
  next
    assume "?A \<or> ?B"
    then show ?L
    proof
      assume ?A
      then have "0 < length (col # cols) \<and> i + 0 \<noteq> k
                 \<and> c \<in> set (candidates m ((col # cols) ! 0))" by simp
      then show ?L by blast
    next
      assume ?B
      then obtain j where "j < length cols" "Suc i + j \<noteq> k" "c \<in> set (candidates m (cols ! j))"
        by blast
      then have "Suc j < length (col # cols) \<and> i + Suc j \<noteq> k
                 \<and> c \<in> set (candidates m ((col # cols) ! Suc j))" by simp
      then show ?L by blast
    qed
  qed
  then show ?case using Cons.IH [of "Suc i"] by (simp add: candidatesFrom_Cons)
qed

lemma collectBelow_ids:
  "belowCellIds (collectBelow cols) = map cellId (allCandidates cols)"
  by (simp add: collectBelow_def allCandidates_def collectFrom_ids split: prod.split)

lemma collectBelow_cells:
  "belowCells (collectBelow cols) x
     = lastEntry None (filter (\<lambda>c. cellId c = x) (allCandidates cols))"
  by (simp add: collectBelow_def allCandidates_def collectFrom_cells split: prod.split)

lemma collectBelow_length: "length (columnBottoms (collectBelow cols)) = length cols"
  by (simp add: collectBelow_def collectFrom_length split: prod.split)

lemma collectBelow_bottoms:
  "columnBottoms (collectBelow cols)
     = map (\<lambda>(j, col). if j = snd (shortest cols) then Finite (lastBottom col)
                        else trackerAfter (lastBottom col)
                               (candidates (fst (shortest cols)) col))
           (zip [0 ..< length cols] cols)"
proof (rule nth_equalityI)
  show "length (columnBottoms (collectBelow cols))
          = length (map (\<lambda>(j, col). if j = snd (shortest cols) then Finite (lastBottom col)
                        else trackerAfter (lastBottom col)
                               (candidates (fst (shortest cols)) col))
           (zip [0 ..< length cols] cols))"
    by (simp add: collectBelow_length)
next
  fix j
  assume "j < length (columnBottoms (collectBelow cols))"
  then have j: "j < length cols" by (simp add: collectBelow_length)
  obtain m k where mk: "shortest cols = (m, k)" by (cases "shortest cols")
  have "columnBottoms (collectBelow cols) ! j
          = (if j \<noteq> k then trackerAfter (lastBottom (cols ! j)) (candidates m (cols ! j))
             else Finite (lastBottom (cols ! j)))"
    using j by (simp add: collectBelow_def mk collectFrom_bottoms trackerAfter_def)
  then show "columnBottoms (collectBelow cols) ! j
          = map (\<lambda>(j, col). if j = snd (shortest cols) then Finite (lastBottom col)
                        else trackerAfter (lastBottom col)
                               (candidates (fst (shortest cols)) col))
           (zip [0 ..< length cols] cols) ! j"
    using j by (simp add: mk)
qed

lemma in_allCandidates:
  "c \<in> set (allCandidates cols) \<longleftrightarrow>
     (\<exists>j. j < length cols \<and> j \<noteq> snd (shortest cols) \<and> c \<in> set (cols ! j)
          \<and> isCell c \<and> fst (shortest cols) < rect_top c)"
proof -
  obtain m0 k0 where mk: "shortest cols = (m0, k0)" by (cases "shortest cols")
  show ?thesis
    by (simp add: allCandidates_def mk set_candidatesFrom set_candidates)
qed

text \<open>
  Step 1 finds the least of \<^verbatim>\<open>Number.MAX_SAFE_INTEGER\<close> and the bottoms, and the first
  column that has it; when no column ends above \<^verbatim>\<open>Number.MAX_SAFE_INTEGER\<close> it stays at
  column 0.
\<close>

lemma shortest_fst:
  "fst (shortest cols) = Min (insert MAX_SAFE_INTEGER (lastBottom ` set cols))"
  using findShortest_minimum [of cols 0 MAX_SAFE_INTEGER 0]
  by (simp add: shortest_def fold_min_Min)

lemma shortest_snd:
  "(fst (shortest cols) < MAX_SAFE_INTEGER \<and> snd (shortest cols) < length cols
      \<and> lastBottom (cols ! snd (shortest cols)) = fst (shortest cols)
      \<and> fst (shortest cols) \<notin> set (take (snd (shortest cols)) (map lastBottom cols)))
   \<or> (fst (shortest cols) = MAX_SAFE_INTEGER \<and> snd (shortest cols) = 0)"
proof (cases "fst (shortest cols) < MAX_SAFE_INTEGER")
  case True
  let ?r = "findShortest cols 0 (MAX_SAFE_INTEGER, 0)"
  let ?xs = "map (\<lambda>c. Finite (lastBottom c)) cols"
  have lt: "fst ?r < MAX_SAFE_INTEGER" using True by (simp only: shortest_def)
  have "if fst ?r < MAX_SAFE_INTEGER
        then indexOf ?xs (Finite (fst ?r)) = Some (snd ?r - 0) \<and> 0 \<le> snd ?r
        else snd ?r = 0"
    using findShortest_minimum [of cols 0 MAX_SAFE_INTEGER 0] by (rule conjunct2)
  then have "indexOf ?xs (Finite (fst ?r)) = Some (snd ?r - 0) \<and> 0 \<le> snd ?r"
    by (simp only: lt if_True)
  then have "indexOf ?xs (Finite (fst ?r)) = Some (snd ?r)" by (simp only: diff_zero)
  then have ix: "indexOf ?xs (Finite (fst (shortest cols))) = Some (snd (shortest cols))"
    by (simp only: shortest_def)
  have f: "snd (shortest cols) < length ?xs
      \<and> ?xs ! snd (shortest cols) = Finite (fst (shortest cols))
      \<and> (\<forall>j < snd (shortest cols). ?xs ! j \<noteq> Finite (fst (shortest cols)))"
    using ix by (rule indexOf_first)
  then have k: "snd (shortest cols) < length cols" by simp
  have b: "lastBottom (cols ! snd (shortest cols)) = fst (shortest cols)" using f k by simp
  have "\<forall>j < snd (shortest cols). lastBottom (cols ! j) \<noteq> fst (shortest cols)"
  proof (intro allI impI)
    fix j
    assume j: "j < snd (shortest cols)"
    then have "?xs ! j \<noteq> Finite (fst (shortest cols))" using f by blast
    moreover have "j < length cols" using j k by simp
    ultimately show "lastBottom (cols ! j) \<noteq> fst (shortest cols)" by simp
  qed
  then have "fst (shortest cols) \<notin> set (take (snd (shortest cols)) (map lastBottom cols))"
    using k by (auto simp: in_set_conv_nth)
  then show ?thesis using True k b by blast
next
  case False
  let ?r = "findShortest cols 0 (MAX_SAFE_INTEGER, 0)"
  have nlt: "\<not> fst ?r < MAX_SAFE_INTEGER" using False by (simp add: shortest_def)
  have "if fst ?r < MAX_SAFE_INTEGER
        then indexOf (map (\<lambda>c. Finite (lastBottom c)) cols) (Finite (fst ?r)) = Some (snd ?r - 0)
             \<and> 0 \<le> snd ?r
        else snd ?r = 0"
    using findShortest_minimum [of cols 0 MAX_SAFE_INTEGER 0] by (rule conjunct2)
  then have "snd ?r = 0" by (simp only: nlt if_False)
  then have k: "snd (shortest cols) = 0" by (simp only: shortest_def)
  have "fst (shortest cols) \<le> MAX_SAFE_INTEGER" by (simp add: shortest_fst)
  then have "fst (shortest cols) = MAX_SAFE_INTEGER" using False by simp
  then show ?thesis using k by blast
qed

lemma allCandidates_explicit:
  "allCandidates cols
     = concat (map (\<lambda>(j, col). if j = snd (shortest cols) then []
                      else filter (\<lambda>c. fst (shortest cols) < rect_top c)
                             (rev (filter isCell col)))
                   (zip [0 ..< length cols] cols))"
proof -
  obtain m0 k0 where mk: "shortest cols = (m0, k0)" by (cases "shortest cols")
  show ?thesis
    by (simp add: allCandidates_def mk candidatesFrom_def candidates_def cellsInColumn_def
          cong: if_cong)
qed

text \<open>
  Two subtractions that round. From the binary64 value nearest to \<open>0.6\<close>, subtracting those
  nearest to \<open>0.1\<close> and \<open>0.2\<close> gives the one nearest to \<open>0.3\<close>: the first difference,
  \<open>1/2 - 2\<^sup>-\<^sup>5\<^sup>5\<close>, rounds to \<open>1/2\<close>.
\<close>

lemma fsub_rounds:
  "fsub (fsub (Finite (5404319552844595 / 2 ^ 53)) (3602879701896397 / 2 ^ 55))
        (3602879701896397 / 2 ^ 54)
     = Finite (5404319552844595 / 2 ^ 54)"
proof -
  let ?x = "1 / 2 - 3602879701896397 / 2 ^ 54 :: real"
  have u: "ulp ?x = 1 / 2 ^ (2 + 52)" by (rule ulp_small) simp_all
  have k: "roundEven (?x / (1 / 2 ^ (2 + 52))) = 5404319552844595"
    by (simp add: roundEven_def Let_def)
  have "round64 ?x = Finite (of_int 5404319552844595 * (1 / 2 ^ (2 + 52)))"
    using _ u k by (rule round64_eval) simp_all
  then have r: "round64 ?x = Finite (5404319552844595 / 2 ^ 54)" by simp
  show ?thesis by (simp only: fsub.simps round64_half r)
qed
text \<open>
  C3. Step 1 leaves in \<open>m\<close> the least of \<^verbatim>\<open>Number.MAX_SAFE_INTEGER\<close> and the bottoms of the
  columns' last children (\<open>0\<close> for a column with no child), and in \<open>k\<close> the first column
  with that bottom (column 0 when no column ends above \<^verbatim>\<open>Number.MAX_SAFE_INTEGER\<close>). The
  collection skips column \<open>k\<close>; of every other column it takes, scanning from the last cell
  to the first, exactly the cells whose top is strictly greater than \<open>m\<close>. The identifiers
  collected are those of these cells in the order of the scan. The tracker of a column
  starts at its bottom, and every cell taken subtracts its height from it with \<^verbatim>\<open>-=\<close>, in
  the order of the scan: one scanning step subtracts the height of the cell it takes from
  the tracker of its column and changes nothing for a cell it leaves. The subtraction is
  that of the host: exact on integers below \<open>2\<^sup>5\<^sup>3\<close>, and rounded to the nearest binary64
  value otherwise, as from \<open>0.6\<close> less \<open>0.1\<close> less \<open>0.2\<close>.
\<close>

theorem collection_candidates:
  "(let m = fst (shortest cols); k = snd (shortest cols);
        bottom = (\<lambda>col. if col = [] then 0 else rect_bottom (last col));
        taken = (\<lambda>col. filter (\<lambda>c. m < rect_top c) (rev (filter isCell col)))
    in m = Min (insert 9007199254740991 (bottom ` set cols))
       \<and> m \<notin> set (take k (map bottom cols))
       \<and> (m < 9007199254740991 \<and> k < length cols \<and> bottom (cols ! k) = m
            \<or> m = 9007199254740991 \<and> k = 0)
       \<and> allCandidates cols
            = concat (map (\<lambda>(j, col). if j = k then [] else taken col)
                          (zip [0 ..< length cols] cols))
       \<and> (c \<in> set (allCandidates cols) \<longleftrightarrow>
             (\<exists>j. j < length cols \<and> j \<noteq> k \<and> c \<in> set (cols ! j)
                  \<and> isCell c \<and> m < rect_top c))
       \<and> belowCellIds (collectBelow cols) = map cellId (allCandidates cols)
       \<and> columnBottoms (collectBelow cols)
            = map (\<lambda>(j, col). if j = k then Finite (bottom col)
                     else foldl fsub (Finite (bottom col)) (map rect_height (taken col)))
                  (zip [0 ..< length cols] cols))
   \<and> scanCells t i (cellDom # rest) p
        = scanCells t i rest
            (if t < rect_top cellDom
             then \<lparr>belowCellIds = belowCellIds p @ [cellId cellDom],
                   belowCells = (belowCells p)(cellId cellDom \<mapsto> (cellDom, rect_height cellDom)),
                   columnBottoms =
                     (columnBottoms p)[i := fsub (columnBottoms p ! i) (rect_height cellDom)]\<rparr>
             else p)
   \<and> (\<bar>a - h\<bar> < 2 ^ 53
        \<longrightarrow> fsub (Finite (of_int a)) (of_int h) = Finite (of_int (a - h)))
   \<and> fsub (fsub (Finite (5404319552844595 / 2 ^ 53)) (3602879701896397 / 2 ^ 55))
           (3602879701896397 / 2 ^ 54)
        = Finite (5404319552844595 / 2 ^ 54)"
proof -
  let ?m = "fst (shortest cols)"
  let ?k = "snd (shortest cols)"
  let ?bottom = "\<lambda>col. if col = [] then 0 else rect_bottom (last col)"
  let ?taken = "\<lambda>col. filter (\<lambda>c. ?m < rect_top c) (rev (filter isCell col))"
  have lb: "lastBottom = ?bottom" by (simp add: lastBottom_def fun_eq_iff)
  have s1: "?m = Min (insert 9007199254740991 (?bottom ` set cols))"
    using shortest_fst [of cols] by (simp only: lb MAX_SAFE_INTEGER_def)
  have s2: "?m \<notin> set (take ?k (map ?bottom cols))"
    using shortest_snd [of cols] unfolding lb by auto
  have s3: "?m < 9007199254740991 \<and> ?k < length cols \<and> ?bottom (cols ! ?k) = ?m
            \<or> ?m = 9007199254740991 \<and> ?k = 0"
    using shortest_snd [of cols] unfolding lb MAX_SAFE_INTEGER_def by blast
  have s4: "allCandidates cols
            = concat (map (\<lambda>(j, col). if j = ?k then [] else ?taken col)
                          (zip [0 ..< length cols] cols))"
    by (rule allCandidates_explicit)
  have s5: "c \<in> set (allCandidates cols) \<longleftrightarrow>
        (\<exists>j. j < length cols \<and> j \<noteq> ?k \<and> c \<in> set (cols ! j)
             \<and> isCell c \<and> ?m < rect_top c)"
    by (rule in_allCandidates)
  have s6: "belowCellIds (collectBelow cols) = map cellId (allCandidates cols)"
    by (rule collectBelow_ids)
  have s7: "columnBottoms (collectBelow cols)
            = map (\<lambda>(j, col). if j = ?k then Finite (?bottom col)
                     else foldl fsub (Finite (?bottom col)) (map rect_height (?taken col)))
                  (zip [0 ..< length cols] cols)"
    using collectBelow_bottoms [of cols]
    unfolding trackerAfter_def candidates_def cellsInColumn_def lb .
  have s8: "scanCells t i (cellDom # rest) p
        = scanCells t i rest
            (if t < rect_top cellDom
             then \<lparr>belowCellIds = belowCellIds p @ [cellId cellDom],
                   belowCells = (belowCells p)(cellId cellDom \<mapsto> (cellDom, rect_height cellDom)),
                   columnBottoms =
                     (columnBottoms p)[i := fsub (columnBottoms p ! i) (rect_height cellDom)]\<rparr>
             else p)"
    by simp
  have s9: "\<bar>a - h\<bar> < 2 ^ 53
        \<longrightarrow> fsub (Finite (of_int a)) (of_int h) = Finite (of_int (a - h))"
    using fsub_int [of a h] by blast
  show ?thesis
    unfolding Let_def
    by (intro conjI) (rule s1, rule s2, rule s3, rule s4, rule s5, rule s6, rule s7, rule s8,
      rule s9, rule fsub_rounds)
qed

theorem collection_candidates_witness:
  "\<bar>100 - 30\<bar> < (2::int) ^ 53
   \<and> fsub (Finite 100) 30 = Finite 70
   \<and> fst (shortest scenario) = 50 \<and> snd (shortest scenario) = 1
   \<and> allCandidates scenario
       = [cell 6 ''6'' 90 100 30, cell 5 ''5'' 60 80 20, cell 7 ''7'' 70 80 10]
   \<and> belowCellIds (collectBelow scenario) = [6, 5, 7]
   \<and> columnBottoms (collectBelow scenario) = [Finite 50, Finite 50, Finite 70]"
proof -
  have t: "\<bar>100 - 30\<bar> < (2::int) ^ 53
        \<longrightarrow> fsub (Finite (of_int 100)) (of_int 30) = Finite (of_int (100 - 30))"
    and a: "allCandidates scenario
            = concat (map (\<lambda>(j, col). if j = snd (shortest scenario) then []
                             else filter (\<lambda>c. fst (shortest scenario) < rect_top c)
                                    (rev (filter isCell col)))
                          (zip [0 ..< length scenario] scenario))"
    using collection_candidates
            [of scenario "cell 6 ''6'' 90 100 30" 50 0 "cell 6 ''6'' 90 100 30" "[]"
                "\<lparr>belowCellIds = [], belowCells = Map.empty, columnBottoms = [Finite 100]\<rparr>"
                100 30]
    unfolding Let_def by blast+
  have f: "fsub (Finite 100) 30 = Finite 70" using t by simp
  have u: "[0 ..< length scenario] = [0, 1, 2]" by (simp add: scenario_def upt_rec)
  have c: "allCandidates scenario
       = [cell 6 ''6'' 90 100 30, cell 5 ''5'' 60 80 20, cell 7 ''7'' 70 80 10]"
    unfolding a scenario_shortest u by (simp add: scenario_def cell_sel)
  show ?thesis
    using f c scenario_belowCellIds scenario_columnBottoms by (simp add: scenario_shortest)
qed

subsection \<open>The assignment loop\<close>

text \<open>
  A tracker is never \<^verbatim>\<open>NaN\<close>, so \<^verbatim>\<open>Math.min\<close> returns one of the trackers and
  \<^verbatim>\<open>indexOf\<close> finds it.
\<close>

lemma addToShortestColumn_Inr:
  assumes "bottoms l \<noteq> []" and "NaN \<notin> set (bottoms l)"
  shows "\<exists>k. k < length (bottoms l) \<and>
           addToShortestColumn l (x, h) =
             Inr \<lparr>columnDoms = detach x (columnDoms l),
                  columnAppendFragments =
                    (detach x (columnAppendFragments l))
                      [k := detach x (columnAppendFragments l) ! k @ [x]],
                  bottoms = (bottoms l)[k := fadd (bottoms l ! k) h]\<rparr>"
proof -
  have "mathMin (bottoms l) \<in> set (bottoms l)" "mathMin (bottoms l) \<noteq> NaN"
    using assms(2,1) by (rule mathMin_in)+
  then obtain k where k: "indexOf (bottoms l) (mathMin (bottoms l)) = Some k"
    "k < length (bottoms l)"
    using indexOf_Some by blast
  show ?thesis
    using k by (auto simp: addToShortestColumn_def Let_def)
qed

lemma update_not_NaN:
  assumes "NaN \<notin> set bs" "k < length bs"
  shows "NaN \<notin> set (bs[k := fadd (bs ! k) h])"
proof -
  have "bs ! k \<noteq> NaN" using assms by (metis nth_mem)
  then have "fadd (bs ! k) h \<noteq> NaN" by (simp add: fadd_NaN)
  moreover have "set (bs[k := fadd (bs ! k) h]) \<subseteq> insert (fadd (bs ! k) h) (set bs)"
    by (rule set_update_subset_insert)
  ultimately show ?thesis using assms(1) by auto
qed

lemma concat_detach: "concat (detach x cols) = filter (\<lambda>e. node e \<noteq> node x) (concat cols)"
  by (simp add: detach_def filter_concat)

lemma length_detach: "length (detach x cols) = length cols"
  by (simp add: detach_def)

lemma mset_concat_snoc:
  "k < length fs \<Longrightarrow> mset (concat (fs[k := fs ! k @ [x]])) = add_mset x (mset (concat fs))"
proof (induction fs arbitrary: k)
  case Nil
  then show ?case by simp
next
  case (Cons f fs)
  then show ?case by (cases k) simp_all
qed

lemma mset_filter_node:
  "distinct (map node ys) \<Longrightarrow> x \<in> set ys \<Longrightarrow>
     add_mset x (mset (filter (\<lambda>e. node e \<noteq> node x) ys)) = mset ys"
proof (induction ys)
  case Nil
  then show ?case by simp
next
  case (Cons y ys)
  show ?case
  proof (cases "y = x")
    case True
    have "node x \<notin> node ` set ys" using Cons.prems(1) True by simp
    then have "\<forall>e \<in> set ys. node e \<noteq> node x" by (metis imageI)
    then have "filter (\<lambda>e. node e \<noteq> node x) ys = ys" by simp
    then show ?thesis using True by simp
  next
    case False
    then have x: "x \<in> set ys" using Cons.prems(2) by simp
    moreover have "node y \<notin> node ` set ys" using Cons.prems(1) by simp
    ultimately have "node y \<noteq> node x" by (metis imageI)
    then show ?thesis using Cons.IH x Cons.prems(1) by simp
  qed
qed

lemma placed_add:
  assumes d: "distinct (map node (placed l))" and x: "x \<in> set (placed l)"
    and k: "k < length (columnAppendFragments l)"
  shows "mset (placed \<lparr>columnDoms = detach x (columnDoms l),
                  columnAppendFragments =
                    (detach x (columnAppendFragments l))
                      [k := detach x (columnAppendFragments l) ! k @ [x]],
                  bottoms = bs\<rparr>) = mset (placed l)"
proof -
  have "mset (filter (\<lambda>e. node e \<noteq> node x) (concat (columnDoms l)))
        + add_mset x (mset (filter (\<lambda>e. node e \<noteq> node x) (concat (columnAppendFragments l))))
        = add_mset x (mset (filter (\<lambda>e. node e \<noteq> node x) (placed l)))"
    by (simp add: placed_def)
  also have "\<dots> = mset (placed l)" using d x by (rule mset_filter_node)
  finally show ?thesis
    using k by (simp add: placed_def mset_concat_snoc length_detach concat_detach)
qed

lemma distinct_node_mset:
  "mset xs = mset ys \<Longrightarrow> distinct (map node xs) = distinct (map node ys)"
proof -
  assume "mset xs = mset ys"
  then have "mset (map node xs) = mset (map node ys)" by simp
  then show ?thesis by (rule mset_eq_imp_distinct_iff)
qed


lemma node_inj_placed:
  assumes "distinct (map node xs)" "x \<in> set xs" "e \<in> set xs" "node e = node x"
  shows "e = x"
proof -
  have "inj_on node (set xs)" using assms(1) by (simp add: distinct_map)
  then show ?thesis using assms(2,3,4) by (simp add: inj_on_def)
qed

lemma set_concat_snoc:
  "k < length fs \<Longrightarrow> set (concat (fs[k := fs ! k @ [x]])) = insert x (set (concat fs))"
proof -
  assume "k < length fs"
  then have "mset (concat (fs[k := fs ! k @ [x]])) = add_mset x (mset (concat fs))"
    by (rule mset_concat_snoc)
  then have "set_mset (mset (concat (fs[k := fs ! k @ [x]])))
               = set_mset (add_mset x (mset (concat fs)))" by simp
  then show ?thesis by simp
qed

lemma add_step:
  assumes ld: "length (columnDoms l) = length (bottoms l)"
    and lf: "length (columnAppendFragments l) = length (bottoms l)"
    and d: "distinct (map node (placed l))"
    and x: "x \<in> set (placed l)"
    and nn: "NaN \<notin> set (bottoms l)"
  shows "\<exists>l1. addToShortestColumn l (x, h) = Inr l1
      \<and> NaN \<notin> set (bottoms l1)
      \<and> length (columnDoms l1) = length (bottoms l)
      \<and> length (columnAppendFragments l1) = length (bottoms l)
      \<and> length (bottoms l1) = length (bottoms l)
      \<and> mset (placed l1) = mset (placed l)
      \<and> columnDoms l1 = detach x (columnDoms l)
      \<and> set (concat (columnAppendFragments l1))
          = insert x (set (concat (columnAppendFragments l)))"
proof -
  have "placed l \<noteq> []" using x by auto
  then have "columnDoms l \<noteq> [] \<or> columnAppendFragments l \<noteq> []"
    by (auto simp: placed_def)
  then have ne: "bottoms l \<noteq> []" using ld lf by auto
  obtain k where k: "k < length (bottoms l)"
    and a: "addToShortestColumn l (x, h) =
             Inr \<lparr>columnDoms = detach x (columnDoms l),
                  columnAppendFragments =
                    (detach x (columnAppendFragments l))
                      [k := detach x (columnAppendFragments l) ! k @ [x]],
                  bottoms = (bottoms l)[k := fadd (bottoms l ! k) h]\<rparr>"
    using addToShortestColumn_Inr [OF ne nn] by blast
  have n1: "NaN \<notin> set ((bottoms l)[k := fadd (bottoms l ! k) h])"
    using nn k by (rule update_not_NaN)
  have kf: "k < length (columnAppendFragments l)" using k lf by simp
  have m: "mset (placed \<lparr>columnDoms = detach x (columnDoms l),
                  columnAppendFragments =
                    (detach x (columnAppendFragments l))
                      [k := detach x (columnAppendFragments l) ! k @ [x]],
                  bottoms = (bottoms l)[k := fadd (bottoms l ! k) h]\<rparr>) = mset (placed l)"
    using d x kf by (rule placed_add)
  have "\<forall>e \<in> set (concat (columnAppendFragments l)). node e = node x \<longrightarrow> e = x"
    using node_inj_placed [OF d x] by (auto simp: placed_def)
  then have i: "insert x (set (filter (\<lambda>e. node e \<noteq> node x) (concat (columnAppendFragments l))))
           = insert x (set (concat (columnAppendFragments l)))"
    by auto
  have kd: "k < length (detach x (columnAppendFragments l))"
    using kf by (simp add: length_detach)
  have "set (concat ((detach x (columnAppendFragments l))
                      [k := detach x (columnAppendFragments l) ! k @ [x]]))
        = insert x (set (concat (detach x (columnAppendFragments l))))"
    using kd by (rule set_concat_snoc)
  also have "\<dots> = insert x (set (filter (\<lambda>e. node e \<noteq> node x)
                                    (concat (columnAppendFragments l))))"
    by (simp only: concat_detach)
  also have "\<dots> = insert x (set (concat (columnAppendFragments l)))" by (rule i)
  finally have s: "set (concat ((detach x (columnAppendFragments l))
                      [k := detach x (columnAppendFragments l) ! k @ [x]]))
        = insert x (set (concat (columnAppendFragments l)))" .
  show ?thesis
    unfolding a using m s ld lf n1 by (simp add: length_detach)
qed

lemma detach_filter:
  "map (filter P) (detach x cols) = map (filter (\<lambda>e. node e \<noteq> node x \<and> P e)) cols"
  by (simp add: detach_def)

lemma assignAll_ok:
  assumes "length (columnDoms l) = length (bottoms l)"
    and "length (columnAppendFragments l) = length (bottoms l)"
    and "distinct (map node (placed l))"
    and "\<forall>cid \<in> set ids. \<exists>x h. cells cid = Some (x, h) \<and> x \<in> set (placed l)"
    and "NaN \<notin> set (bottoms l)"
  shows "\<exists>l'. assignAll cells ids l = Inr l'
      \<and> length (columnDoms l') = length (bottoms l)
      \<and> length (columnAppendFragments l') = length (bottoms l)
      \<and> mset (placed l') = mset (placed l)
      \<and> columnDoms l'
          = map (filter (\<lambda>e. node e \<notin> node ` set (lookedUp cells ids))) (columnDoms l)
      \<and> set (concat (columnAppendFragments l'))
          = set (concat (columnAppendFragments l)) \<union> set (lookedUp cells ids)"
  using assms
proof (induction ids arbitrary: l)
  case Nil
  then show ?case by (simp add: lookedUp_def)
next
  case (Cons cid ids)
  obtain x h where c: "cells cid = Some (x, h)" and x: "x \<in> set (placed l)"
    using Cons.prems(4) by auto
  obtain l1 where a: "addToShortestColumn l (x, h) = Inr l1"
    and n1: "NaN \<notin> set (bottoms l1)"
    and ld: "length (columnDoms l1) = length (bottoms l)"
    and lf: "length (columnAppendFragments l1) = length (bottoms l)"
    and lb: "length (bottoms l1) = length (bottoms l)"
    and m: "mset (placed l1) = mset (placed l)"
    and dm: "columnDoms l1 = detach x (columnDoms l)"
    and fr: "set (concat (columnAppendFragments l1))
          = insert x (set (concat (columnAppendFragments l)))"
    using add_step [OF Cons.prems(1,2,3) x Cons.prems(5), of h] by blast
  have d1: "distinct (map node (placed l1))"
    using Cons.prems(3) distinct_node_mset [OF m] by simp
  have s1: "set (placed l1) = set (placed l)" using m by (rule mset_eq_setD)
  have p4: "\<forall>cid \<in> set ids. \<exists>x h. cells cid = Some (x, h) \<and> x \<in> set (placed l1)"
    using Cons.prems(4) s1 by simp
  obtain l' where r: "assignAll cells ids l1 = Inr l'"
    and rd: "length (columnDoms l') = length (bottoms l1)"
    and rf: "length (columnAppendFragments l') = length (bottoms l1)"
    and rm: "mset (placed l') = mset (placed l1)"
    and rdm: "columnDoms l'
          = map (filter (\<lambda>e. node e \<notin> node ` set (lookedUp cells ids))) (columnDoms l1)"
    and rfr: "set (concat (columnAppendFragments l'))
          = set (concat (columnAppendFragments l1)) \<union> set (lookedUp cells ids)"
    using Cons.IH [of l1] ld lf lb d1 p4 n1 by auto
  have lu: "lookedUp cells (cid # ids) = x # lookedUp cells ids"
    by (simp add: lookedUp_def c)
  have "assignAll cells (cid # ids) l = Inr l'" by (simp add: c a r)
  moreover have "columnDoms l'
          = map (filter (\<lambda>e. node e \<notin> node ` set (lookedUp cells (cid # ids)))) (columnDoms l)"
    unfolding rdm dm detach_filter lu by auto
  moreover have "set (concat (columnAppendFragments l'))
          = set (concat (columnAppendFragments l)) \<union> set (lookedUp cells (cid # ids))"
    unfolding rfr fr lu by auto
  ultimately show ?case using rd rf rm m lb by simp
qed

subsection \<open>The whole pass\<close>

lemma lookedUp_Cons:
  "lookedUp cells (cid # ids)
     = (case cells cid of None \<Rightarrow> [] | Some (x, h) \<Rightarrow> [x]) @ lookedUp cells ids"
  by (simp add: lookedUp_def)

lemma in_lookedUp:
  "x \<in> set (lookedUp cells ids) \<longleftrightarrow> (\<exists>cid \<in> set ids. \<exists>h. cells cid = Some (x, h))"
proof (induction ids)
  case Nil
  show ?case by (simp add: lookedUp_def)
next
  case (Cons cid ids)
  show ?case
  proof (cases "cells cid")
    case None
    then show ?thesis using Cons.IH by (simp add: lookedUp_Cons)
  next
    case (Some v)
    obtain y g where v: "v = (y, g)" by (cases v)
    show ?thesis using Cons.IH Some v by (auto simp: lookedUp_Cons)
  qed
qed

lemma lastEntry_None:
  "lastEntry None cs = Some v \<longleftrightarrow> cs \<noteq> [] \<and> v = (last cs, rect_height (last cs))"
  by (auto simp: lastEntry_def)

lemma belowCells_Some:
  "belowCells (collectBelow cols) cid = Some v \<longleftrightarrow>
     cid \<in> set (belowCellIds (collectBelow cols))
     \<and> v = (last (filter (\<lambda>c. cellId c = cid) (allCandidates cols)),
            rect_height (last (filter (\<lambda>c. cellId c = cid) (allCandidates cols))))"
proof -
  have "filter (\<lambda>c. cellId c = cid) (allCandidates cols) \<noteq> []
          \<longleftrightarrow> cid \<in> cellId ` set (allCandidates cols)"
    by (auto simp: filter_empty_conv)
  then show ?thesis
    by (auto simp: collectBelow_cells collectBelow_ids lastEntry_None)
qed

lemma belowCells_candidate:
  assumes "belowCells (collectBelow cols) cid = Some (x, h)"
  shows "x \<in> set (allCandidates cols)"
proof -
  let ?F = "filter (\<lambda>c. cellId c = cid) (allCandidates cols)"
  have ne: "?F \<noteq> []" and x: "x = last ?F"
    using assms by (auto simp: collectBelow_cells lastEntry_None)
  have "last ?F \<in> set ?F" using ne by (rule last_in_set)
  then have "x \<in> set ?F" using x by simp
  then show ?thesis by simp
qed

lemma retained_candidates: "retained (collectBelow cols) \<subseteq> set (allCandidates cols)"
  using belowCells_candidate by (fastforce simp: retained_def ran_def)

lemma allCandidates_other:
  "c \<in> set (allCandidates cols) \<Longrightarrow>
     \<exists>j. j < length cols \<and> j \<noteq> snd (shortest cols) \<and> c \<in> set (cols ! j)"
  using in_allCandidates [of c cols] by blast


lemma allCandidates_in_cols: "set (allCandidates cols) \<subseteq> set (concat cols)"
proof
  fix c
  assume "c \<in> set (allCandidates cols)"
  then obtain j where "j < length cols" "c \<in> set (cols ! j)"
    using allCandidates_other by blast
  then show "c \<in> set (concat cols)" by auto
qed

lemma lookedUp_retained:
  assumes "rearranges hs"
  shows "set (lookedUp (belowCells (collectBelow cols))
                (hs compareIds (belowCellIds (collectBelow cols))))
         = retained (collectBelow cols)"
proof -
  let ?p = "collectBelow cols"
  have s: "set (hs compareIds (belowCellIds ?p)) = set (belowCellIds ?p)"
    using assms by (rule rearranges_set)
  show ?thesis
  proof (rule set_eqI)
    fix x
    have "x \<in> retained ?p \<longleftrightarrow> (\<exists>cid h. belowCells ?p cid = Some (x, h))"
      by (force simp: retained_def ran_def)
    also have "\<dots> \<longleftrightarrow> (\<exists>cid \<in> set (belowCellIds ?p). \<exists>h. belowCells ?p cid = Some (x, h))"
      using belowCells_Some [of cols] by blast
    finally show "x \<in> set (lookedUp (belowCells ?p) (hs compareIds (belowCellIds ?p)))
                    \<longleftrightarrow> x \<in> retained ?p"
      by (simp add: in_lookedUp s)
  qed
qed

lemma collectBelow_not_NaN: "NaN \<notin> set (columnBottoms (collectBelow cols))"
proof
  assume "NaN \<in> set (columnBottoms (collectBelow cols))"
  then obtain j col where
    "NaN = (if j = snd (shortest cols) then Finite (lastBottom col)
            else trackerAfter (lastBottom col) (candidates (fst (shortest cols)) col))"
    unfolding collectBelow_bottoms by auto
  then have "trackerAfter (lastBottom col) (candidates (fst (shortest cols)) col) = NaN"
    by (simp split: if_splits)
  then show False by (simp add: trackerAfter_def foldl_fsub_NaN)
qed

lemma assignPool_ok:
  assumes hs: "rearranges hs" and dom: "domOk cols"
  shows "\<exists>l. assignPool hs cols (collectBelow cols) = Inr l
      \<and> length (columnDoms l) = length cols
      \<and> length (columnAppendFragments l) = length cols
      \<and> mset (placed l) = mset (concat cols)
      \<and> columnDoms l
          = map (filter (\<lambda>e. node e \<notin> node ` retained (collectBelow cols))) cols
      \<and> set (concat (columnAppendFragments l)) = retained (collectBelow cols)"
proof -
  let ?p = "collectBelow cols"
  let ?ids = "hs compareIds (belowCellIds ?p)"
  let ?l = "\<lparr>columnDoms = cols, columnAppendFragments = replicate (length cols) [],
             bottoms = columnBottoms ?p\<rparr>"
  have pl: "placed ?l = concat cols" by (simp add: placed_def)
  have a1: "length (columnDoms ?l) = length (bottoms ?l)" by (simp add: collectBelow_length)
  have a2: "length (columnAppendFragments ?l) = length (bottoms ?l)"
    by (simp add: collectBelow_length)
  have a3: "distinct (map node (placed ?l))" using dom by (simp add: pl domOk_def)
  have a4: "\<forall>cid \<in> set ?ids. \<exists>x h. belowCells ?p cid = Some (x, h) \<and> x \<in> set (placed ?l)"
  proof
    fix cid
    assume "cid \<in> set ?ids"
    then have "cid \<in> set (belowCellIds ?p)" using rearranges_set [OF hs] by simp
    then obtain x h where c: "belowCells ?p cid = Some (x, h)"
      using belowCells_Some [of cols cid] by blast
    then have "x \<in> set (allCandidates cols)" by (rule belowCells_candidate)
    then have "x \<in> set (placed ?l)" using allCandidates_in_cols pl by auto
    with c show "\<exists>x h. belowCells ?p cid = Some (x, h) \<and> x \<in> set (placed ?l)" by blast
  qed
  have a5: "NaN \<notin> set (bottoms ?l)" by (simp add: collectBelow_not_NaN)
  obtain l' where r: "assignAll (belowCells ?p) ?ids ?l = Inr l'"
    and rd: "length (columnDoms l') = length (bottoms ?l)"
    and rf: "length (columnAppendFragments l') = length (bottoms ?l)"
    and rm: "mset (placed l') = mset (placed ?l)"
    and rdm: "columnDoms l'
          = map (filter (\<lambda>e. node e \<notin> node ` set (lookedUp (belowCells ?p) ?ids)))
                (columnDoms ?l)"
    and rfr: "set (concat (columnAppendFragments l'))
          = set (concat (columnAppendFragments ?l)) \<union> set (lookedUp (belowCells ?p) ?ids)"
    using assignAll_ok [OF a1 a2 a3 a4 a5] by blast
  have "assignPool hs cols ?p = Inr l'" using r by (simp add: assignPool_def)
  moreover have "length (columnDoms l') = length cols" using rd by (simp add: collectBelow_length)
  moreover have "length (columnAppendFragments l') = length cols"
    using rf by (simp add: collectBelow_length)
  moreover have "mset (placed l') = mset (concat cols)" using rm pl by simp
  moreover have "columnDoms l'
          = map (filter (\<lambda>e. node e \<notin> node ` retained ?p)) cols"
    using rdm by (simp add: lookedUp_retained [OF hs])
  moreover have "set (concat (columnAppendFragments l')) = retained ?p"
    using rfr by (simp add: lookedUp_retained [OF hs])
  ultimately show ?thesis by blast
qed

lemma mset_appendFragments:
  "length ds = length fs \<Longrightarrow>
     mset (concat (map (\<lambda>(dom, frag). dom @ frag) (zip ds fs)))
       = mset (concat ds) + mset (concat fs)"
  by (induction ds fs rule: list_induct2) simp_all

lemma placed_appendFragments:
  "length (columnDoms l) = length (columnAppendFragments l) \<Longrightarrow>
     mset (concat (appendFragments l)) = mset (placed l)"
  by (simp add: appendFragments_def placed_def mset_appendFragments)

lemma length_appendFragments:
  "length (columnDoms l) = length (columnAppendFragments l) \<Longrightarrow>
     length (appendFragments l) = length (columnDoms l)"
  by (simp add: appendFragments_def)

lemma nth_appendFragments:
  "length (columnDoms l) = length (columnAppendFragments l) \<Longrightarrow> j < length (columnDoms l) \<Longrightarrow>
     appendFragments l ! j = columnDoms l ! j @ columnAppendFragments l ! j"
  by (simp add: appendFragments_def)

lemma findShortest_index:
  "snd (findShortest cols i (m, k0)) = k0
   \<or> (i \<le> snd (findShortest cols i (m, k0)) \<and> snd (findShortest cols i (m, k0)) < i + length cols)"
proof (induction cols arbitrary: i m k0)
  case Nil
  show ?case by simp
next
  case (Cons col cols)
  show ?case
    using Cons.IH [of "Suc i" "lastBottom col" i] Cons.IH [of "Suc i" m k0]
    by auto
qed

lemma shortest_index: "cols \<noteq> [] \<Longrightarrow> snd (shortest cols) < length cols"
  using findShortest_index [of cols 0 MAX_SAFE_INTEGER 0]
  by (auto simp: shortest_def)

lemma nth_subset_concat: "j < length xss \<Longrightarrow> set (xss ! j) \<subseteq> set (concat xss)"
proof -
  assume "j < length xss"
  then have "xss ! j \<in> set xss" by (rule nth_mem)
  then show ?thesis by auto
qed

lemma nodes_disjoint:
  "distinct (map node (concat cols)) \<Longrightarrow> j < length cols \<Longrightarrow> k < length cols \<Longrightarrow> j \<noteq> k \<Longrightarrow>
     node ` set (cols ! j) \<inter> node ` set (cols ! k) = {}"
proof (induction cols arbitrary: j k)
  case Nil
  then show ?case by simp
next
  case (Cons col cols)
  have d: "distinct (map node (concat cols))" using Cons.prems(1) by simp
  have x: "node ` set col \<inter> node ` set (concat cols) = {}" using Cons.prems(1) by auto
  show ?case
  proof (cases j)
    case 0
    then obtain k' where k: "k = Suc k'" using Cons.prems(4) by (cases k) auto
    then have "set (cols ! k') \<subseteq> set (concat cols)"
      using Cons.prems(3) by (intro nth_subset_concat) simp
    then show ?thesis using x 0 k by auto
  next
    case (Suc j')
    show ?thesis
    proof (cases k)
      case 0
      have "set (cols ! j') \<subseteq> set (concat cols)"
        using Cons.prems(2) Suc by (intro nth_subset_concat) simp
      then show ?thesis using x 0 Suc by auto
    next
      case (Suc k')
      then show ?thesis
        using Cons.IH [OF d, of j' k'] Cons.prems \<open>j = Suc j'\<close> by simp
    qed
  qed
qed

text \<open>
  C8. In a pass over at least one column (nodes pairwise distinct, sort rearranging), the
  column that step 1 found shortest keeps its children: after the pass it holds them in the
  same order, followed by the candidates appended to it.
\<close>

theorem shortest_column_kept:
  assumes hs: "rearranges hs" and dom: "domOk cols" and ne: "cols \<noteq> []"
  shows "snd (shortest cols) < length cols
     \<and> (\<exists>cols' app. reLayoutChildren hs cols = Inr cols'
           \<and> length cols' = length cols
           \<and> cols' ! snd (shortest cols) = cols ! snd (shortest cols) @ app
           \<and> set app \<subseteq> set (allCandidates cols))"
proof -
  let ?k = "snd (shortest cols)"
  let ?p = "collectBelow cols"
  have k: "?k < length cols" using ne by (rule shortest_index)
  obtain l where a: "assignPool hs cols ?p = Inr l"
    and ld: "length (columnDoms l) = length cols"
    and lf: "length (columnAppendFragments l) = length cols"
    and dm: "columnDoms l = map (filter (\<lambda>e. node e \<notin> node ` retained ?p)) cols"
    and fr: "set (concat (columnAppendFragments l)) = retained ?p"
    using assignPool_ok [OF hs dom] by blast
  have r: "reLayoutChildren hs cols = Inr (appendFragments l)"
    by (simp add: reLayoutChildren_def a)
  have keep: "\<forall>e \<in> set (cols ! ?k). node e \<notin> node ` retained ?p"
  proof (intro ballI notI)
    fix e
    assume e: "e \<in> set (cols ! ?k)" and "node e \<in> node ` retained ?p"
    then obtain x where x: "x \<in> retained ?p" "node e = node x" by auto
    then have "x \<in> set (allCandidates cols)" using retained_candidates by auto
    then obtain j where j: "j < length cols" "j \<noteq> ?k" "x \<in> set (cols ! j)"
      using allCandidates_other by blast
    have "node ` set (cols ! j) \<inter> node ` set (cols ! ?k) = {}"
      using dom j(1) k j(2) unfolding domOk_def by (rule nodes_disjoint)
    moreover have "node x \<in> node ` set (cols ! j)" using j(3) by simp
    moreover have "node x \<in> node ` set (cols ! ?k)" using e x(2) by (metis imageI)
    ultimately show False by blast
  qed
  have "columnDoms l ! ?k = filter (\<lambda>e. node e \<notin> node ` retained ?p) (cols ! ?k)"
    using k by (simp add: dm)
  also have "\<dots> = cols ! ?k" using keep by simp
  finally have dk: "columnDoms l ! ?k = cols ! ?k" .
  have n: "appendFragments l ! ?k = cols ! ?k @ columnAppendFragments l ! ?k"
    using k ld lf dk by (simp add: nth_appendFragments)
  have "set (columnAppendFragments l ! ?k) \<subseteq> set (concat (columnAppendFragments l))"
    using k lf by (intro nth_subset_concat) simp
  then have s: "set (columnAppendFragments l ! ?k) \<subseteq> set (allCandidates cols)"
    using fr retained_candidates by blast
  have len: "length (appendFragments l) = length cols"
    using ld lf by (simp add: length_appendFragments)
  show ?thesis using k r len n s by blast
qed

lemma balanced_no_candidates:
  assumes "balanced cols"
  shows "allCandidates cols = []"
proof -
  obtain m k where mk: "shortest cols = (m, k)" by (cases "shortest cols")
  have b: "\<forall>z \<in> set (zip [0 ..< length cols] cols).
             fst z = k \<or> list_all (\<lambda>c. \<not> (isCell c \<and> m < rect_top c)) (snd z)"
    using assms by (auto simp: balanced_def mk list_all_iff)
  have "\<forall>z \<in> set (zip [0 ..< length cols] cols).
          (case z of (j, col) \<Rightarrow> if j = k then [] else candidates m col) = []"
  proof
    fix z
    assume z: "z \<in> set (zip [0 ..< length cols] cols)"
    obtain j col where jc: "z = (j, col)" by (cases z)
    show "(case z of (j, col) \<Rightarrow> if j = k then [] else candidates m col) = []"
    proof (cases "j = k")
      case True
      then show ?thesis by (simp add: jc)
    next
      case False
      then have "list_all (\<lambda>c. \<not> (isCell c \<and> m < rect_top c)) col"
        using b z jc by auto
      then have "\<forall>c. c \<notin> set (candidates m col)"
        by (auto simp: list_all_iff set_candidates)
      then have "candidates m col = []" by (cases "candidates m col") auto
      then show ?thesis using False by (simp add: jc)
    qed
  qed
  then show ?thesis by (simp add: allCandidates_def mk candidatesFrom_def)
qed

lemma appendFragments_empty:
  "map (\<lambda>(dom, frag). dom @ frag) (zip cols (replicate (length cols) [])) = cols"
  by (induction cols) simp_all

lemma reLayout_no_candidates:
  assumes "rearranges hs" and "allCandidates cols = []"
  shows "reLayoutChildren hs cols = Inr cols"
proof -
  have "belowCellIds (collectBelow cols) = []" using assms(2) by (simp add: collectBelow_ids)
  then have "hs compareIds (belowCellIds (collectBelow cols)) = []"
    using rearranges_Nil [OF assms(1)] by simp
  then show ?thesis
    by (simp add: reLayoutChildren_def assignPool_def appendFragments_def appendFragments_empty)
qed

text \<open>
  C5. When no cell of a column other than the shortest has its top strictly greater than
  the shortest bottom, the pass (on a host whose sort rearranges) collects no candidate and
  returns the columns as they are; a second pass over its result returns them again.
\<close>

theorem balanced_pass_moves_nothing:
  assumes "rearranges hs" and "balanced cols"
  shows "allCandidates cols = []
     \<and> belowCellIds (collectBelow cols) = []
     \<and> reLayoutChildren hs cols = Inr cols
     \<and> (case reLayoutChildren hs cols of
          Inl e \<Rightarrow> False
        | Inr cols1 \<Rightarrow> reLayoutChildren hs cols1 = Inr cols)"
proof -
  have a: "allCandidates cols = []" using assms(2) by (rule balanced_no_candidates)
  have r: "reLayoutChildren hs cols = Inr cols" using assms(1) a by (rule reLayout_no_candidates)
  show ?thesis using a r by (simp add: collectBelow_ids)
qed

lemma domOk_scenario: "domOk scenario"
  by (simp add: domOk_def scenario_def cell_sel)

lemma settled_shortest: "shortest settled = (50, 0)"
  by (simp add: shortest_def settled_def cell_sel lastBottom_def MAX_SAFE_INTEGER_def)

lemma balanced_settled: "balanced settled"
  unfolding balanced_def settled_shortest
  by (simp add: settled_def cell_sel)

theorem balanced_pass_moves_nothing_witness:
  "rearranges sortByNeg \<and> balanced settled
   \<and> allCandidates settled = []
   \<and> belowCellIds (collectBelow settled) = []
   \<and> reLayoutChildren sortByNeg settled = Inr settled
   \<and> (case reLayoutChildren sortByNeg settled of
          Inl e \<Rightarrow> False
        | Inr cols1 \<Rightarrow> reLayoutChildren sortByNeg cols1 = Inr settled)"
  using balanced_pass_moves_nothing [OF rearranges_sortByNeg balanced_settled]
    rearranges_sortByNeg balanced_settled
  by simp

theorem shortest_column_kept_witness:
  "rearranges sortByPos \<and> domOk scenario \<and> scenario \<noteq> []
   \<and> snd (shortest scenario) < length scenario
   \<and> (\<exists>cols' app. reLayoutChildren sortByPos scenario = Inr cols'
           \<and> length cols' = length scenario
           \<and> cols' ! snd (shortest scenario) = scenario ! snd (shortest scenario) @ app
           \<and> set app \<subseteq> set (allCandidates scenario))"
proof -
  have ne: "scenario \<noteq> []" by (simp add: scenario_def)
  show ?thesis
    using shortest_column_kept [OF rearranges_sortByPos domOk_scenario ne]
      rearranges_sortByPos domOk_scenario ne
    by simp
qed

subsection \<open>Identifiers\<close>


lemma cellId_attr: "cellId (c\<lparr>dataCell := a\<rparr>) = toInt32 (toNumber a)"
  by (simp add: cellId_def)

lemma cellId_showNat:
  assumes "n < 2 ^ 53"
  shows "cellId (c\<lparr>dataCell := Some (showNat n)\<rparr>)
     = (if 2 ^ 31 \<le> int n mod 2 ^ 32 then int n mod 2 ^ 32 - 2 ^ 32 else int n mod 2 ^ 32)"
  using assms
  by (simp only: cellId_attr toNumber_def option.case stringToNumber_showNat round64_nat
        toInt32_nat)





lemma distinct_candidates:
  "distinct col \<Longrightarrow> distinct (candidates m col)"
  by (simp add: candidates_def cellsInColumn_def)

lemma candidatesFrom_subset:
  "set (candidatesFrom m k i cols) \<subseteq> set (concat cols)"
proof
  fix c
  assume "c \<in> set (candidatesFrom m k i cols)"
  then obtain j where j: "j < length cols" "c \<in> set (candidates m (cols ! j))"
    using set_candidatesFrom by blast
  then have "c \<in> set (cols ! j)" by (simp add: set_candidates)
  then show "c \<in> set (concat cols)" using j(1) nth_subset_concat by blast
qed

lemma distinct_candidatesFrom:
  "distinct (concat cols) \<Longrightarrow> distinct (candidatesFrom m k i cols)"
proof (induction cols arbitrary: i)
  case Nil
  show ?case by (simp add: candidatesFrom_Nil)
next
  case (Cons col cols)
  have d1: "distinct col" and d2: "distinct (concat cols)"
    and dj: "set col \<inter> set (concat cols) = {}"
    using Cons.prems by auto
  have a: "distinct (if i = k then [] else candidates m col)"
    using d1 by (simp add: distinct_candidates)
  have b: "distinct (candidatesFrom m k (Suc i) cols)" using d2 by (rule Cons.IH)
  have "set (if i = k then [] else candidates m col) \<subseteq> set col"
    by (auto simp: set_candidates)
  then have c: "set (if i = k then [] else candidates m col)
                  \<inter> set (candidatesFrom m k (Suc i) cols) = {}"
    using dj candidatesFrom_subset [of m k "Suc i" cols] by blast
  show ?case unfolding candidatesFrom_Cons using a b c by simp
qed

lemma distinct_allCandidates: "domOk cols \<Longrightarrow> distinct (allCandidates cols)"
proof -
  assume "domOk cols"
  then have "distinct (concat cols)" by (simp add: domOk_def distinct_map)
  then show ?thesis
    by (simp add: allCandidates_def distinct_candidatesFrom split: prod.split)
qed


lemma retained_iff:
  "x \<in> retained (collectBelow cols) \<longleftrightarrow>
     x \<in> set (allCandidates cols)
     \<and> x = last (filter (\<lambda>c. cellId c = cellId x) (allCandidates cols))"
proof
  assume "x \<in> retained (collectBelow cols)"
  then obtain cid h where c: "belowCells (collectBelow cols) cid = Some (x, h)"
    by (force simp: retained_def ran_def)
  let ?F = "filter (\<lambda>c. cellId c = cid) (allCandidates cols)"
  have ne: "?F \<noteq> []" and x: "x = last ?F"
    using c by (auto simp: collectBelow_cells lastEntry_None)
  have "last ?F \<in> set ?F" using ne by (rule last_in_set)
  then have "x \<in> set ?F" using x by simp
  then have "x \<in> set (allCandidates cols)" "cellId x = cid" by simp_all
  then show "x \<in> set (allCandidates cols)
     \<and> x = last (filter (\<lambda>c. cellId c = cellId x) (allCandidates cols))"
    using x by simp
next
  assume a: "x \<in> set (allCandidates cols)
     \<and> x = last (filter (\<lambda>c. cellId c = cellId x) (allCandidates cols))"
  let ?F = "filter (\<lambda>c. cellId c = cellId x) (allCandidates cols)"
  have "x \<in> set ?F" using a by simp
  then have ne: "?F \<noteq> []" by (metis empty_iff empty_set)
  have "belowCells (collectBelow cols) (cellId x) = Some (last ?F, rect_height (last ?F))"
    using ne by (simp add: collectBelow_cells lastEntry_def)
  then have "belowCells (collectBelow cols) (cellId x) = Some (x, rect_height x)"
    using a by simp
  then show "x \<in> retained (collectBelow cols)"
    by (force simp: retained_def ran_def)
qed











subsection \<open>Conservation\<close>

lemma candidates_are_cells:
  "set (allCandidates cols) \<subseteq> set (cellsInColumn (concat cols))"
proof
  fix c
  assume "c \<in> set (allCandidates cols)"
  then obtain j where "j < length cols" "c \<in> set (cols ! j)" "isCell c"
    using in_allCandidates [of c cols] by blast
  then have "c \<in> set (concat cols)" "isCell c" using nth_subset_concat by blast+
  then show "c \<in> set (cellsInColumn (concat cols))" by (simp add: cellsInColumn_def)
qed

lemma retained_all:
  assumes ids: "distinct (map cellId (cellsInColumn (concat cols)))"
  shows "retained (collectBelow cols) = set (allCandidates cols)"
proof
  show "retained (collectBelow cols) \<subseteq> set (allCandidates cols)" by (rule retained_candidates)
next
  show "set (allCandidates cols) \<subseteq> retained (collectBelow cols)"
  proof
    fix x
    assume x: "x \<in> set (allCandidates cols)"
    let ?F = "filter (\<lambda>c. cellId c = cellId x) (allCandidates cols)"
    have inj: "inj_on cellId (set (cellsInColumn (concat cols)))"
      using ids by (simp add: distinct_map)
    have "x \<in> set ?F" using x by simp
    then have ne: "?F \<noteq> []" by (metis empty_iff empty_set)
    have "last ?F \<in> set ?F" using ne by (rule last_in_set)
    then have l: "last ?F \<in> set (allCandidates cols)" "cellId (last ?F) = cellId x"
      by simp_all
    have "last ?F \<in> set (cellsInColumn (concat cols))" "x \<in> set (cellsInColumn (concat cols))"
      using l(1) x candidates_are_cells by blast+
    then have "last ?F = x" using inj l(2) by (simp add: inj_on_def)
    then show "x \<in> retained (collectBelow cols)" using x by (simp add: retained_iff)
  qed
qed

lemma filter_nodes_elems:
  assumes d: "distinct (map node ys)" and s: "set col \<subseteq> set ys" and r: "R \<subseteq> set ys"
  shows "filter (\<lambda>e. node e \<notin> node ` R) col = filter (\<lambda>e. e \<notin> R) col"
proof (rule filter_cong [OF refl])
  fix e
  assume e: "e \<in> set col"
  show "(node e \<notin> node ` R) = (e \<notin> R)"
  proof
    assume "node e \<notin> node ` R"
    then show "e \<notin> R" by auto
  next
    assume n: "e \<notin> R"
    show "node e \<notin> node ` R"
    proof
      assume "node e \<in> node ` R"
      then obtain x where x: "x \<in> R" "node e = node x" by auto
      have "e = x" using d _ _ x(2)
      proof (rule node_inj_placed)
        show "x \<in> set ys" using x(1) r by blast
        show "e \<in> set ys" using e s by blast
      qed
      with x(1) n show False by simp
    qed
  qed
qed

lemma appendFragments_map:
  "appendFragments \<lparr>columnDoms = map g cols, columnAppendFragments = apps, bottoms = bs\<rparr>
     = map (\<lambda>(col, app). g col @ app) (zip cols apps)"
  by (simp add: appendFragments_def zip_map1 case_prod_unfold)

text \<open>
  Whatever the identifiers are, no element is lost or doubled: a candidate that the loop
  never looks up stays where it is.
\<close>

lemma reflow_conserves_elements:
  assumes hs: "rearranges hs" and dom: "domOk cols"
  shows "\<exists>cols'. reLayoutChildren hs cols = Inr cols'
      \<and> length cols' = length cols
      \<and> mset (concat cols') = mset (concat cols)
      \<and> domOk cols'"
proof -
  obtain l where a: "assignPool hs cols (collectBelow cols) = Inr l"
    and ld: "length (columnDoms l) = length cols"
    and lf: "length (columnAppendFragments l) = length cols"
    and m: "mset (placed l) = mset (concat cols)"
    using assignPool_ok [OF hs dom] by blast
  have r: "reLayoutChildren hs cols = Inr (appendFragments l)"
    by (simp add: reLayoutChildren_def a)
  have n: "length (appendFragments l) = length cols"
    using ld lf by (simp add: length_appendFragments)
  have ms: "mset (concat (appendFragments l)) = mset (concat cols)"
    using ld lf m by (simp add: placed_appendFragments)
  have d: "domOk (appendFragments l)"
    using dom distinct_node_mset [OF ms] by (simp add: domOk_def)
  show ?thesis using r n ms d by blast
qed

lemma round64_2_53: "round64 9007199254740992 = Finite 9007199254740992"
proof -
  have u: "ulp 9007199254740992 = 2 ^ 1" by (rule ulp_large) simp_all
  have k: "roundEven (9007199254740992 / 2 ^ 1) = 4503599627370496"
    by (simp add: roundEven_def Let_def)
  have "round64 9007199254740992 = Finite (of_int 4503599627370496 * 2 ^ 1)"
    using _ u k by (rule round64_eval) simp_all
  then show ?thesis by simp
qed

text \<open>
  Two attributes that differ and give one identifier: \<^verbatim>\<open>9007199254740993\<close> is no binary64
  value and rounds to \<^verbatim>\<open>9007199254740992\<close>. Columns that hold two such cells are outside
  the hypothesis of distinct identifiers.
\<close>

lemma rounded_identifiers_collide:
  "cellId (cell n ''9007199254740992'' t b h) = 0"
  "cellId (cell n' ''9007199254740993'' t' b' h') = 0"
  by (simp_all add: cellId_def cell_sel number_defs round64_2_53 round64_tie)

text \<open>
  C4. A pass over columns whose nodes are pairwise distinct and whose cells carry pairwise
  distinct identifiers, on a host whose sort rearranges, ends without an exception, keeps
  the number of columns, and leaves the multiset of elements across the columns, and so
  that of the cells' identifiers, as it was; every node is still in one place. Each column
  afterwards holds its elements that were no candidates, in their order, followed by what
  was appended to it, and what was appended over all columns is every candidate once. The
  identifiers are those the pass computes from the attributes: the number itself for the
  decimal numeral of a natural number below \<open>2\<^sup>3\<^sup>1\<close>, and one identifier for the two
  attributes \<^verbatim>\<open>9007199254740992\<close> and \<^verbatim>\<open>9007199254740993\<close>, which are one Number.
\<close>

theorem reflow_conserves_items:
  assumes hs: "rearranges hs" and dom: "domOk cols"
    and ids: "distinct (map cellId (cellsInColumn (concat cols)))"
  shows "(\<exists>cols' apps. reLayoutChildren hs cols = Inr cols'
      \<and> length cols' = length cols
      \<and> mset (concat cols') = mset (concat cols)
      \<and> mset (map cellId (cellsInColumn (concat cols')))
          = mset (map cellId (cellsInColumn (concat cols)))
      \<and> domOk cols'
      \<and> length apps = length cols
      \<and> cols' = map (\<lambda>(col, app). filter (\<lambda>e. e \<notin> set (allCandidates cols)) col @ app)
                    (zip cols apps)
      \<and> mset (concat apps) = mset (allCandidates cols))
    \<and> (n < 2 ^ 31 \<longrightarrow> cellId (c\<lparr>dataCell := Some (showNat n)\<rparr>) = int n)
    \<and> cellId (c\<lparr>dataCell := Some (js ''9007199254740992'')\<rparr>)
         = cellId (c\<lparr>dataCell := Some (js ''9007199254740993'')\<rparr>)"
proof -
  let ?p = "collectBelow cols"
  let ?A = "allCandidates cols"
  obtain l where a: "assignPool hs cols ?p = Inr l"
    and ld: "length (columnDoms l) = length cols"
    and lf: "length (columnAppendFragments l) = length cols"
    and m: "mset (placed l) = mset (concat cols)"
    and dm: "columnDoms l = map (filter (\<lambda>e. node e \<notin> node ` retained ?p)) cols"
    and fr: "set (concat (columnAppendFragments l)) = retained ?p"
    using assignPool_ok [OF hs dom] by blast
  let ?c = "appendFragments l"
  have r: "reLayoutChildren hs cols = Inr ?c" by (simp add: reLayoutChildren_def a)
  have n: "length ?c = length cols" using ld lf by (simp add: length_appendFragments)
  have ms: "mset (concat ?c) = mset (concat cols)"
    using ld lf m by (simp add: placed_appendFragments)
  have mf: "mset (filter isCell (concat ?c)) = mset (filter isCell (concat cols))"
    by (simp only: mset_filter ms)
  have "mset (map cellId (filter isCell (concat ?c)))
           = mset (map cellId (filter isCell (concat cols)))"
    by (simp only: mset_map mf)
  then have mi: "mset (map cellId (cellsInColumn (concat ?c)))
          = mset (map cellId (cellsInColumn (concat cols)))"
    by (simp only: cellsInColumn_def)
  have d: "domOk ?c"
    using dom distinct_node_mset [OF ms] by (simp add: domOk_def)
  have dn: "distinct (map node (concat cols))" using dom by (simp only: domOk_def)
  have ra: "retained ?p = set ?A" using ids by (rule retained_all)
  have "\<forall>col \<in> set cols. filter (\<lambda>e. node e \<notin> node ` set ?A) col
                            = filter (\<lambda>e. e \<notin> set ?A) col"
  proof
    fix col
    assume "col \<in> set cols"
    then have "set col \<subseteq> set (concat cols)" by auto
    with dn show "filter (\<lambda>e. node e \<notin> node ` set ?A) col = filter (\<lambda>e. e \<notin> set ?A) col"
      using allCandidates_in_cols by (rule filter_nodes_elems)
  qed
  then have dm': "columnDoms l = map (filter (\<lambda>e. e \<notin> set ?A)) cols"
    unfolding dm ra by simp
  have "l = \<lparr>columnDoms = map (filter (\<lambda>e. e \<notin> set ?A)) cols,
             columnAppendFragments = columnAppendFragments l, bottoms = bottoms l\<rparr>"
    using dm' by simp
  then have "?c = appendFragments \<lparr>columnDoms = map (filter (\<lambda>e. e \<notin> set ?A)) cols,
             columnAppendFragments = columnAppendFragments l, bottoms = bottoms l\<rparr>"
    by simp
  then have shape: "?c = map (\<lambda>(col, app). filter (\<lambda>e. e \<notin> set ?A) col @ app)
                            (zip cols (columnAppendFragments l))"
    by (simp only: appendFragments_map)
  have "distinct (map node (placed l))" using dn distinct_node_mset [OF m] by simp
  then have "distinct (placed l)" by (simp add: distinct_map)
  then have df: "distinct (concat (columnAppendFragments l))" by (simp add: placed_def)
  have da: "distinct ?A" using dom by (rule distinct_allCandidates)
  have sa: "set (concat (columnAppendFragments l)) = set ?A" using fr ra by simp
  have ma: "mset (concat (columnAppendFragments l)) = mset ?A"
    using df da sa by (simp only: set_eq_iff_mset_eq_distinct)
  have main: "\<exists>cols' apps. reLayoutChildren hs cols = Inr cols'
      \<and> length cols' = length cols
      \<and> mset (concat cols') = mset (concat cols)
      \<and> mset (map cellId (cellsInColumn (concat cols')))
          = mset (map cellId (cellsInColumn (concat cols)))
      \<and> domOk cols'
      \<and> length apps = length cols
      \<and> cols' = map (\<lambda>(col, app). filter (\<lambda>e. e \<notin> set (allCandidates cols)) col @ app)
                    (zip cols apps)
      \<and> mset (concat apps) = mset (allCandidates cols)"
    using r n ms mi d lf shape ma by blast
  have small: "n < 2 ^ 31 \<longrightarrow> cellId (c\<lparr>dataCell := Some (showNat n)\<rparr>) = int n"
  proof
    assume n: "n < 2 ^ 31"
    have "(2::nat) ^ 31 \<le> 2 ^ 53" by (rule power_increasing) simp_all
    then have "n < 2 ^ 53" using n by simp
    then have "cellId (c\<lparr>dataCell := Some (showNat n)\<rparr>)
       = (if 2 ^ 31 \<le> int n mod 2 ^ 32 then int n mod 2 ^ 32 - 2 ^ 32 else int n mod 2 ^ 32)"
      by (rule cellId_showNat)
    moreover have "int n < 2 ^ 31" using n by (simp add: nat_less_numeral_power_cancel_iff [symmetric])
    ultimately show "cellId (c\<lparr>dataCell := Some (showNat n)\<rparr>) = int n" by simp
  qed
  have same: "cellId (c\<lparr>dataCell := Some (js ''9007199254740992'')\<rparr>)
           = cellId (c\<lparr>dataCell := Some (js ''9007199254740993'')\<rparr>)"
    by (simp add: cellId_def number_defs round64_2_53 round64_tie)
  show ?thesis using main small same by blast
qed

theorem reflow_conserves_items_witness:
  "rearranges sortByPos \<and> domOk scenario
   \<and> distinct (map cellId (cellsInColumn (concat scenario)))
   \<and> (\<exists>cols' apps. reLayoutChildren sortByPos scenario = Inr cols'
      \<and> length cols' = length scenario
      \<and> mset (concat cols') = mset (concat scenario)
      \<and> mset (map cellId (cellsInColumn (concat cols')))
          = mset (map cellId (cellsInColumn (concat scenario)))
      \<and> domOk cols'
      \<and> length apps = length scenario
      \<and> cols' = map (\<lambda>(col, app). filter (\<lambda>e. e \<notin> set (allCandidates scenario)) col @ app)
                    (zip scenario apps)
      \<and> mset (concat apps) = mset (allCandidates scenario))
   \<and> (7::nat) < 2 ^ 31
   \<and> cellId (cell 7 ''7'' 70 80 10\<lparr>dataCell := Some (showNat 7)\<rparr>) = 7"
proof -
  have i: "distinct (map cellId (cellsInColumn (concat scenario)))"
    by (simp add: scenario_def cellsInColumn_def cell_sel scenario_ids)
  show ?thesis
    using reflow_conserves_items
            [OF rearranges_sortByPos domOk_scenario i, of 7 "cell 7 ''7'' 70 80 10"]
      rearranges_sortByPos domOk_scenario i
    by simp
qed

end
